theory Spec2Isabelle
  imports Main "HOL-Library.Multiset" "HOL-Library.Word"
begin

section \<open>Contexts, tasks, goroutines and schedules\<close>

text \<open>
  The package \<^verbatim>\<open>grouper\<close> runs functions of type
  \<^verbatim>\<open>func(context.Context) (V, error)\<close> in goroutines of their own and collects what they
  return. Three pieces of code are embedded here:
  \<^item> \<^verbatim>\<open>src/grouper.go\<close>: \<open>Group\<close>, \<open>New\<close>, \<open>Wait\<close>;
  \<^item> \<^verbatim>\<open>src/unnamed/part_000\<close>, a second version of the fixed group: the same names with
    the suffix \<open>_000\<close>;
  \<^item> \<^verbatim>\<open>src/dynamic.go\<close>: \<open>DynamicGroup\<close>, \<open>NewDynamic\<close>, \<open>Go\<close>, \<open>Wait\<close>: fields
    and functions with the suffix \<open>_dyn\<close> where the name is already taken.

  The result type \<^verbatim>\<open>V\<close> is a type \<open>'v\<close> of class \<open>zero\<close>, whose \<open>0\<close> is Go's zero
  value of \<^verbatim>\<open>V\<close>.

  A context is the one thing a task can observe of it: whether it is done (the channel of
  \<^verbatim>\<open>ctx.Done()\<close> is closed). \<^verbatim>\<open>context.WithCancel\<close> derives a child that is done as
  soon as its parent is, together with the function that cancels it.
\<close>

record Context =
  Done :: bool

type_synonym CancelFunc = "Context \<Rightarrow> Context"

definition cancelCtx :: CancelFunc where
  "cancelCtx c = c\<lparr>Done := True\<rparr>"

definition WithCancel :: "Context \<Rightarrow> Context \<times> CancelFunc" where
  "WithCancel parent = (\<lparr>Done = Done parent\<rparr>, cancelCtx)"

text \<open>
  A task is a Go function that is given the derived context. While it runs it may look at
  the context any number of times (\<open>Poll\<close>: it continues according to what it sees at
  that moment), and in the end it returns a value and an error, \<open>None\<close> for \<^verbatim>\<open>nil\<close>.
  Errors are compared by identity in Go: \<open>'e\<close> is the type of these identities. The
  source says that \<open>Wait\<close> blocks until all functions have returned; tasks that never
  return are outside the model.
\<close>

datatype ('v, 'e) task =
  Return 'v "'e option"
| Poll "Context \<Rightarrow> ('v, 'e) task"

text \<open>
  A goroutine of a group is running its task, or it is blocked in the send
  \<^verbatim>\<open>g.valueChan <- v\<close> (dynamic group only), or it has run to its end. Its local variables
  \<^verbatim>\<open>v, err\<close> stay with it once the task has returned.
\<close>

datatype ('v, 'e) goroutine =
  Running "('v, 'e) task"
| Sending 'v "'e option"
| Exited 'v "'e option"

fun result :: "('v, 'e) goroutine \<Rightarrow> ('v \<times> 'e option) option" where
  "result (Running t) = None"
| "result (Sending v e) = Some (v, e)"
| "result (Exited v e) = Some (v, e)"

fun is_Running :: "('v, 'e) goroutine \<Rightarrow> bool" where
  "is_Running (Running t) = True"
| "is_Running (Sending v e) = False"
| "is_Running (Exited v e) = False"

fun is_Exited :: "('v, 'e) goroutine \<Rightarrow> bool" where
  "is_Exited (Running t) = False"
| "is_Exited (Sending v e) = False"
| "is_Exited (Exited v e) = True"

text \<open>
  The Go scheduler interleaves the goroutines. A schedule is the list of what happens,
  in order: \<open>Run i\<close> lets goroutine \<open>i\<close> take its next step (one look at the context,
  or the return of its task together with the bookkeeping that follows it, which touches
  shared state only under \<^verbatim>\<open>sync.Once\<close>), and \<open>ParentCancel\<close> is the caller
  cancelling the parent context, which makes the derived one done. An event that
  cannot happen (no such goroutine, or one that has exited) changes nothing.
\<close>

datatype event = Run nat | ParentCancel

datatype panic = Panic string

text \<open>
  A call of a blocking function, seen after a finite schedule: it is still blocked, or
  the program has panicked, or it has returned.
\<close>

datatype 'a call = Blocked | Panicked panic | Returned 'a

section \<open>The fixed group of \<^verbatim>\<open>src/grouper.go\<close>\<close>

record ('v, 'e) Group =
  ctx :: Context
  cancel :: "CancelFunc option"
  wg :: nat
  errOnce :: bool
  err :: "'e option"
  funcs :: "('v, 'e) task list"

definition New :: "Context \<Rightarrow> ('v, 'e) task list \<Rightarrow> panic + ('v, 'e) Group \<times> Context" where
  "New parent fs =
     (if length fs = 0 then Inl (Panic ''grouper.New cannot be created without funcs to call!'')
      else (case WithCancel parent of (c, cf) \<Rightarrow>
        Inr (\<lparr>ctx = c, cancel = Some cf, wg = length fs, errOnce = False, err = None,
              funcs = fs\<rparr>, c)))"

text \<open>
  What \<open>Wait\<close> works on: the group, its local slice \<^verbatim>\<open>values\<close> (\<open>vals\<close> here),
  the goroutines it has started, and whether one of them has panicked.
\<close>

record ('v, 'e) frame =
  group :: "('v, 'e) Group"
  vals :: "'v list"
  goroutines :: "('v, 'e) goroutine list"
  panicked :: "panic option"

text \<open>\<^verbatim>\<open>g.errOnce.Do(func() { g.err = err; if g.cancel != nil { g.cancel() } })\<close>\<close>

definition errOnce_Do :: "'e \<Rightarrow> ('v, 'e) Group \<Rightarrow> ('v, 'e) Group" where
  "errOnce_Do e g =
     (if errOnce g then g
      else (case cancel g of
              None \<Rightarrow> g\<lparr>err := Some e, errOnce := True\<rparr>
            | Some cf \<Rightarrow> g\<lparr>err := Some e, ctx := cf (ctx g), errOnce := True\<rparr>))"

text \<open>\<^verbatim>\<open>g.wg.Done()\<close>: a counter that would go below zero panics.\<close>

definition wg_Done :: "('v, 'e) frame \<Rightarrow> ('v, 'e) frame" where
  "wg_Done w =
     (if wg (group w) = 0 then w\<lparr>panicked := Some (Panic ''sync: negative WaitGroup counter'')\<rparr>
      else w\<lparr>group := (group w)\<lparr>wg := wg (group w) - 1\<rparr>\<rparr>)"

text \<open>
  The body of goroutine \<open>i\<close> from the moment its task has returned \<open>(v, e)\<close>: the error
  goes to the single-fire guard, a value is stored only when there is no error, and the
  deferred \<^verbatim>\<open>g.wg.Done()\<close> runs last.
\<close>

definition returned :: "nat \<Rightarrow> 'v \<Rightarrow> 'e option \<Rightarrow> ('v, 'e) frame \<Rightarrow> ('v, 'e) frame" where
  "returned i v e w =
     wg_Done
       ((case e of
           Some x \<Rightarrow> w\<lparr>group := errOnce_Do x (group w)\<rparr>
         | None \<Rightarrow> w\<lparr>vals := (vals w)[i := v]\<rparr>)
        \<lparr>goroutines := (goroutines w)[i := Exited v e]\<rparr>)"

fun step :: "event \<Rightarrow> ('v, 'e) frame \<Rightarrow> ('v, 'e) frame" where
  "step ParentCancel w = w\<lparr>group := (group w)\<lparr>ctx := cancelCtx (ctx (group w))\<rparr>\<rparr>"
| "step (Run i) w =
     (if panicked w \<noteq> None \<or> length (goroutines w) \<le> i then w
      else (case goroutines w ! i of
              Running t \<Rightarrow>
                (case t of
                   Poll k \<Rightarrow> w\<lparr>goroutines := (goroutines w)[i := Running (k (ctx (group w)))]\<rparr>
                 | Return v e \<Rightarrow> returned i v e w)
            | Sending v e \<Rightarrow> w
            | Exited v e \<Rightarrow> w))"

text \<open>
  \<open>Wait\<close> under a schedule. It makes the slice and starts one goroutine per function
  (\<open>start\<close>), and is blocked in \<^verbatim>\<open>g.wg.Wait()\<close> until the counter is zero; then it
  cancels the context and returns the slice and \<^verbatim>\<open>g.err\<close>. The third component of the
  result is the state it leaves behind.
\<close>

definition start :: "('v::zero, 'e) Group \<Rightarrow> ('v, 'e) frame" where
  "start g =
     \<lparr>group = g, vals = replicate (length (funcs g)) 0,
      goroutines = map Running (funcs g), panicked = None\<rparr>"

definition Wait :: "event list \<Rightarrow> ('v::zero, 'e) Group \<Rightarrow> ('v list \<times> 'e option \<times> ('v, 'e) frame) call" where
  "Wait sched g =
     (let w = fold step sched (start g)
      in case panicked w of
           Some p \<Rightarrow> Panicked p
         | None \<Rightarrow>
             if wg (group w) \<noteq> 0 then Blocked
             else (case cancel (group w) of
                     None \<Rightarrow> Panicked (Panic ''invalid memory address or nil pointer dereference'')
                   | Some cf \<Rightarrow>
                       Returned (vals w, err (group w),
                                 w\<lparr>group := (group w)\<lparr>ctx := cf (ctx (group w))\<rparr>\<rparr>)))"

section \<open>The fixed group of \<^verbatim>\<open>src/unnamed/part_000\<close>\<close>

record ('v, 'e) Group_000 =
  wg_000 :: nat
  errOnce_000 :: bool
  err_000 :: "'e option"
  funcs_000 :: "('v, 'e) task list"

definition New_000 :: "('v, 'e) task list \<Rightarrow> panic + ('v, 'e) Group_000" where
  "New_000 fs =
     (if length fs = 0 then Inl (Panic ''grouper.New cannot be created without funcs to call!'')
      else Inr \<lparr>wg_000 = 0, errOnce_000 = False, err_000 = None, funcs_000 = fs\<rparr>)"

text \<open>Here the derived context and its cancel function are locals of \<open>Wait\<close>.\<close>

record ('v, 'e) frame_000 =
  group_000 :: "('v, 'e) Group_000"
  ctx_000 :: Context
  cancel_000 :: CancelFunc
  vals_000 :: "'v list"
  goroutines_000 :: "('v, 'e) goroutine list"
  panicked_000 :: "panic option"

text \<open>\<^verbatim>\<open>g.errOnce.Do(func() { g.err = err; cancel() })\<close>\<close>

definition errOnce_Do_000 :: "'e \<Rightarrow> ('v, 'e) frame_000 \<Rightarrow> ('v, 'e) frame_000" where
  "errOnce_Do_000 e w =
     (if errOnce_000 (group_000 w) then w
      else w\<lparr>group_000 := (group_000 w)\<lparr>err_000 := Some e, errOnce_000 := True\<rparr>,
             ctx_000 := cancel_000 w (ctx_000 w)\<rparr>)"

definition wg_Done_000 :: "('v, 'e) frame_000 \<Rightarrow> ('v, 'e) frame_000" where
  "wg_Done_000 w =
     (if wg_000 (group_000 w) = 0
      then w\<lparr>panicked_000 := Some (Panic ''sync: negative WaitGroup counter'')\<rparr>
      else w\<lparr>group_000 := (group_000 w)\<lparr>wg_000 := wg_000 (group_000 w) - 1\<rparr>\<rparr>)"

text \<open>
  The body of goroutine \<open>i\<close> from the moment its task has returned \<open>(v, e)\<close>: the value
  is stored whether or not there is an error.
\<close>

definition returned_000 :: "nat \<Rightarrow> 'v \<Rightarrow> 'e option \<Rightarrow> ('v, 'e) frame_000 \<Rightarrow> ('v, 'e) frame_000" where
  "returned_000 i v e w =
     (let w1 = (case e of Some x \<Rightarrow> errOnce_Do_000 x w | None \<Rightarrow> w);
          w2 = w1\<lparr>vals_000 := (vals_000 w1)[i := v]\<rparr>
      in wg_Done_000 (w2\<lparr>goroutines_000 := (goroutines_000 w2)[i := Exited v e]\<rparr>))"

fun step_000 :: "event \<Rightarrow> ('v, 'e) frame_000 \<Rightarrow> ('v, 'e) frame_000" where
  "step_000 ParentCancel w = w\<lparr>ctx_000 := cancelCtx (ctx_000 w)\<rparr>"
| "step_000 (Run i) w =
     (if panicked_000 w \<noteq> None \<or> length (goroutines_000 w) \<le> i then w
      else (case goroutines_000 w ! i of
              Running t \<Rightarrow>
                (case t of
                   Poll k \<Rightarrow> w\<lparr>goroutines_000 := (goroutines_000 w)[i := Running (k (ctx_000 w))]\<rparr>
                 | Return v e \<Rightarrow> returned_000 i v e w)
            | Sending v e \<Rightarrow> w
            | Exited v e \<Rightarrow> w))"

text \<open>
  \<open>Wait(ctx)\<close> under a schedule: it derives the context, adds the number of functions
  to the counter, makes the slice and starts the goroutines (\<open>start_000\<close>), and is
  blocked until the counter is zero; the deferred \<^verbatim>\<open>cancel()\<close> runs as it returns.
\<close>

definition start_000 :: "Context \<Rightarrow> ('v::zero, 'e) Group_000 \<Rightarrow> ('v, 'e) frame_000" where
  "start_000 parent g =
     (case WithCancel parent of (c, cf) \<Rightarrow>
        \<lparr>group_000 = g\<lparr>wg_000 := wg_000 g + length (funcs_000 g)\<rparr>,
         ctx_000 = c, cancel_000 = cf,
         vals_000 = replicate (length (funcs_000 g)) 0,
         goroutines_000 = map Running (funcs_000 g), panicked_000 = None\<rparr>)"

definition Wait_000 ::
  "Context \<Rightarrow> event list \<Rightarrow> ('v::zero, 'e) Group_000 \<Rightarrow> ('v list \<times> 'e option \<times> ('v, 'e) frame_000) call" where
  "Wait_000 parent sched g =
     (let w = fold step_000 sched (start_000 parent g)
      in case panicked_000 w of
           Some p \<Rightarrow> Panicked p
         | None \<Rightarrow>
             if wg_000 (group_000 w) \<noteq> 0 then Blocked
             else Returned (vals_000 w, err_000 (group_000 w),
                            w\<lparr>ctx_000 := cancel_000 w (ctx_000 w)\<rparr>))"

text \<open>Calls of \<open>Wait\<close> one after the other on the same group, each with its own parent
  context and schedule.\<close>

fun Waits_000 :: "(Context \<times> event list) list \<Rightarrow> ('v::zero, 'e) Group_000 \<Rightarrow> ('v, 'e) Group_000 call" where
  "Waits_000 [] g = Returned g"
| "Waits_000 (c # cs) g =
     (case Wait_000 (fst c) (snd c) g of
        Blocked \<Rightarrow> Blocked
      | Panicked p \<Rightarrow> Panicked p
      | Returned r \<Rightarrow> Waits_000 cs (group_000 (snd (snd r))))"

section \<open>The dynamic group of \<^verbatim>\<open>src/dynamic.go\<close>\<close>

text \<open>
  \<^verbatim>\<open>make(chan V)\<close> is an unbuffered channel: it stores nothing, and a send completes
  only together with a receive. What is in flight is held by the goroutines blocked in
  their send (\<open>Sending\<close>). The field \<^verbatim>\<open>count uint\<close> is a 64-bit word.
\<close>

datatype 'v chan = Unbuffered

record ('v, 'e) DynamicGroup =
  ctx_dyn :: Context
  cancel_dyn :: "CancelFunc option"
  errOnce_dyn :: bool
  err_dyn :: "'e option"
  count_dyn :: "64 word"
  valueChan :: "'v chan"

definition NewDynamic :: "Context \<Rightarrow> ('v, 'e) DynamicGroup \<times> Context" where
  "NewDynamic parent =
     (case WithCancel parent of (c, cf) \<Rightarrow>
        (\<lparr>ctx_dyn = c, cancel_dyn = Some cf, errOnce_dyn = False, err_dyn = None,
          count_dyn = 0, valueChan = Unbuffered\<rparr>, c))"

text \<open>The group together with the goroutines that \<open>Go\<close> has started so far.\<close>

record ('v, 'e) state_dyn =
  group_dyn :: "('v, 'e) DynamicGroup"
  goroutines_dyn :: "('v, 'e) goroutine list"

text \<open>\<^verbatim>\<open>g.errOnce.Do(func() { g.err = err; if g.cancel != nil { g.cancel() } })\<close>\<close>

definition errOnce_Do_dyn :: "'e \<Rightarrow> ('v, 'e) DynamicGroup \<Rightarrow> ('v, 'e) DynamicGroup" where
  "errOnce_Do_dyn e g =
     (if errOnce_dyn g then g
      else (case cancel_dyn g of
              None \<Rightarrow> g\<lparr>err_dyn := Some e, errOnce_dyn := True\<rparr>
            | Some cf \<Rightarrow> g\<lparr>err_dyn := Some e, ctx_dyn := cf (ctx_dyn g), errOnce_dyn := True\<rparr>))"

text \<open>\<open>Go\<close> counts the submission and starts the goroutine; it does not wait for it.\<close>

definition Go :: "('v, 'e) task \<Rightarrow> ('v, 'e) state_dyn \<Rightarrow> ('v, 'e) state_dyn" where
  "Go f s =
     s\<lparr>group_dyn := (group_dyn s)\<lparr>count_dyn := count_dyn (group_dyn s) + 1\<rparr>,
       goroutines_dyn := goroutines_dyn s @ [Running f]\<rparr>"

text \<open>
  A step of goroutine \<open>j\<close>: when its task returns \<open>(v, e)\<close>, an error goes to the
  single-fire guard, and the goroutine then offers \<open>v\<close>, the value the task returned,
  on the channel.
\<close>

fun step_dyn :: "event \<Rightarrow> ('v, 'e) state_dyn \<Rightarrow> ('v, 'e) state_dyn" where
  "step_dyn ParentCancel s = s\<lparr>group_dyn := (group_dyn s)\<lparr>ctx_dyn := cancelCtx (ctx_dyn (group_dyn s))\<rparr>\<rparr>"
| "step_dyn (Run j) s =
     (if length (goroutines_dyn s) \<le> j then s
      else (case goroutines_dyn s ! j of
              Running t \<Rightarrow>
                (case t of
                   Poll k \<Rightarrow>
                     s\<lparr>goroutines_dyn := (goroutines_dyn s)[j := Running (k (ctx_dyn (group_dyn s)))]\<rparr>
                 | Return v e \<Rightarrow>
                     (case e of
                        Some x \<Rightarrow> s\<lparr>group_dyn := errOnce_Do_dyn x (group_dyn s)\<rparr>
                      | None \<Rightarrow> s)
                     \<lparr>goroutines_dyn := (goroutines_dyn s)[j := Sending v e]\<rparr>)
            | Sending v e \<Rightarrow> s
            | Exited v e \<Rightarrow> s))"

text \<open>
  The caller's program before \<open>Wait\<close>: one call of \<open>Go\<close> per task, in order; after
  each call the scheduler may do what is listed beside the task.
\<close>

fun submit :: "(('v, 'e) task \<times> event list) list \<Rightarrow> ('v, 'e) state_dyn \<Rightarrow> ('v, 'e) state_dyn" where
  "submit [] s = s"
| "submit (p # ps) s = submit ps (fold step_dyn (snd p) (Go (fst p) s))"

text \<open>
  While \<open>Wait\<close> is in its loop, the scheduler may also complete a send: \<open>Recv j\<close> is
  the rendezvous of the receive \<^verbatim>\<open>values[i] = <-g.valueChan\<close> with goroutine \<open>j\<close>, if
  that goroutine is blocked in its send.
\<close>

datatype event_dyn = Sched event | Recv nat

text \<open>
  The receive \<^verbatim>\<open><-g.valueChan\<close> meeting the send of goroutine \<open>j\<close>: the receiver gets
  the value offered and the sender runs to its end. \<open>None\<close> when goroutine \<open>j\<close> is not
  blocked in its send.
\<close>

definition recv :: "nat \<Rightarrow> ('v, 'e) state_dyn \<Rightarrow> ('v \<times> ('v, 'e) state_dyn) option" where
  "recv j s =
     (if length (goroutines_dyn s) \<le> j then None
      else (case goroutines_dyn s ! j of
              Running t \<Rightarrow> None
            | Sending v e \<Rightarrow> Some (v, s\<lparr>goroutines_dyn := (goroutines_dyn s)[j := Exited v e]\<rparr>)
            | Exited v e \<Rightarrow> None))"

text \<open>
  \<^verbatim>\<open>for i := range values { values[i] = <-g.valueChan }\<close>: \<open>None\<close> when the schedule
  ends with the loop still blocked in a receive.
\<close>

fun Wait_loop ::
  "event_dyn list \<Rightarrow> nat \<Rightarrow> 'v list \<Rightarrow> ('v, 'e) state_dyn \<Rightarrow> ('v list \<times> ('v, 'e) state_dyn) option" where
  "Wait_loop [] i values s = (if i < length values then None else Some (values, s))"
| "Wait_loop (ev # evs) i values s =
     (if i < length values then
        (case ev of
           Sched a \<Rightarrow> Wait_loop evs i values (step_dyn a s)
         | Recv j \<Rightarrow>
             (case recv j s of
                None \<Rightarrow> Wait_loop evs i values s
              | Some (v, s') \<Rightarrow> Wait_loop evs (Suc i) (values[i := v]) s'))
      else Some (values, s))"

text \<open>
  \<open>Wait\<close> under a schedule: a slice of \<^verbatim>\<open>g.count\<close> elements, the loop, then
  \<^verbatim>\<open>g.count = 0\<close>, \<^verbatim>\<open>g.cancel()\<close>, and the slice and \<^verbatim>\<open>g.err\<close> are returned.
\<close>

definition Wait_dyn ::
  "event_dyn list \<Rightarrow> ('v::zero, 'e) state_dyn \<Rightarrow> ('v list \<times> 'e option \<times> ('v, 'e) state_dyn) call" where
  "Wait_dyn sched s =
     (case Wait_loop sched 0 (replicate (unat (count_dyn (group_dyn s))) 0) s of
        None \<Rightarrow> Blocked
      | Some (values, s') \<Rightarrow>
          (case cancel_dyn (group_dyn s') of
             None \<Rightarrow> Panicked (Panic ''invalid memory address or nil pointer dereference'')
           | Some cf \<Rightarrow>
               Returned (values, err_dyn (group_dyn s'),
                         s'\<lparr>group_dyn := (group_dyn s')\<lparr>count_dyn := 0,
                                                        ctx_dyn := cf (ctx_dyn (group_dyn s'))\<rparr>\<rparr>)))"

text \<open>The state right after \<open>NewDynamic\<close>: no goroutine yet.\<close>

definition fresh_dyn :: "Context \<Rightarrow> ('v, 'e) state_dyn" where
  "fresh_dyn parent = \<lparr>group_dyn = fst (NewDynamic parent), goroutines_dyn = []\<rparr>"

section \<open>What the tasks returned, and the invariants of a run\<close>

text \<open>
  \<open>returns t r\<close>: the task \<open>t\<close> can return \<open>r\<close>, for some sequence of what it sees of
  the context. \<open>may_end g r\<close>: the task of goroutine \<open>g\<close> has returned \<open>r\<close>, or is still
  running and can return \<open>r\<close>.
\<close>

primrec returns :: "('v, 'e) task \<Rightarrow> 'v \<times> 'e option \<Rightarrow> bool" where
  "returns (Return v e) r = (r = (v, e))"
| "returns (Poll k) r = (returns (k \<lparr>Done = False\<rparr>) r \<or> returns (k \<lparr>Done = True\<rparr>) r)"

fun may_end :: "('v, 'e) goroutine \<Rightarrow> 'v \<times> 'e option \<Rightarrow> bool" where
  "may_end (Running t) r = returns t r"
| "may_end (Sending v e) r = (r = (v, e))"
| "may_end (Exited v e) r = (r = (v, e))"

text \<open>
  Every goroutine is some way through its task: \<open>inv_res fs gs\<close> ties the goroutines
  \<open>gs\<close> to the functions \<open>fs\<close> they were started with.
\<close>

definition inv_res :: "('v, 'e) task list \<Rightarrow> ('v, 'e) goroutine list \<Rightarrow> bool" where
  "inv_res fs gs \<longleftrightarrow>
     length gs = length fs \<and> (\<forall>i<length fs. \<forall>r. may_end (gs ! i) r \<longrightarrow> returns (fs ! i) r)"

text \<open>The errors that tasks have returned so far.\<close>

definition failures :: "('v, 'e) goroutine list \<Rightarrow> 'e set" where
  "failures gs = {x. \<exists>i<length gs. \<exists>v. result (gs ! i) = Some (v, Some x)}"

text \<open>
  The number of steps a task can still take, at most, and with it a bound on what is left
  to do for a list of goroutines: the measure that shows that \<open>Wait\<close> can return.
\<close>

primrec height :: "('v, 'e) task \<Rightarrow> nat" where
  "height (Return v e) = 0"
| "height (Poll k) = Suc (max (height (k \<lparr>Done = False\<rparr>)) (height (k \<lparr>Done = True\<rparr>)))"

fun cost :: "('v, 'e) goroutine \<Rightarrow> nat" where
  "cost (Running t) = Suc (Suc (height t))"
| "cost (Sending v e) = 1"
| "cost (Exited v e) = 0"

definition todo :: "('v, 'e) goroutine list \<Rightarrow> nat" where
  "todo gs = sum_list (map cost gs)"

text \<open>
  What the slot of a goroutine holds: in \<^verbatim>\<open>grouper.go\<close> the value of a task that returned
  no error, and zero otherwise (\<open>slot\<close>); in \<^verbatim>\<open>part_000\<close>, and on the channel of the
  dynamic group, the value the task returned (\<open>value_of\<close>).
\<close>

fun slot :: "('v::zero, 'e) goroutine \<Rightarrow> 'v" where
  "slot (Running t) = 0"
| "slot (Sending v e) = 0"
| "slot (Exited v e) = (case e of None \<Rightarrow> v | Some x \<Rightarrow> 0)"

fun value_of :: "('v::zero, 'e) goroutine \<Rightarrow> 'v" where
  "value_of (Running t) = 0"
| "value_of (Sending v e) = v"
| "value_of (Exited v e) = v"

text \<open>In a fixed group no goroutine sends on a channel.\<close>

definition inv_run :: "('v, 'e) goroutine list \<Rightarrow> bool" where
  "inv_run gs = list_all (\<lambda>g. is_Running g \<or> is_Exited g) gs"

subsection \<open>\<^verbatim>\<open>src/grouper.go\<close>\<close>

text \<open>
  The counter of the wait group is the number of goroutines still running; the slice
  holds what \<open>slot\<close> says; the error slot is empty as long as the guard has not fired and
  no task has failed, and holds the error of a task that failed afterwards.
\<close>

definition inv_wg :: "('v, 'e) frame \<Rightarrow> bool" where
  "inv_wg w \<longleftrightarrow> panicked w = None \<and> wg (group w) = length (filter is_Running (goroutines w))"

definition inv_vals :: "('v::zero, 'e) frame \<Rightarrow> bool" where
  "inv_vals w \<longleftrightarrow>
     length (vals w) = length (goroutines w) \<and>
     (\<forall>i<length (goroutines w). vals w ! i = slot (goroutines w ! i))"

definition inv_err :: "('v, 'e) frame \<Rightarrow> bool" where
  "inv_err w =
     (case err (group w) of
        None \<Rightarrow> \<not> errOnce (group w) \<and> failures (goroutines w) = {}
      | Some x \<Rightarrow> errOnce (group w) \<and> x \<in> failures (goroutines w))"

definition inv :: "('v::zero, 'e) task list \<Rightarrow> ('v, 'e) frame \<Rightarrow> bool" where
  "inv fs w \<longleftrightarrow>
     inv_wg w \<and> inv_res fs (goroutines w) \<and> inv_vals w \<and> inv_err w \<and>
     inv_run (goroutines w) \<and> cancel (group w) = Some cancelCtx"

subsection \<open>\<^verbatim>\<open>src/unnamed/part_000\<close>\<close>

definition inv_wg_000 :: "('v, 'e) frame_000 \<Rightarrow> bool" where
  "inv_wg_000 w \<longleftrightarrow>
     panicked_000 w = None \<and>
     wg_000 (group_000 w) = length (filter is_Running (goroutines_000 w))"

definition inv_vals_000 :: "('v::zero, 'e) frame_000 \<Rightarrow> bool" where
  "inv_vals_000 w \<longleftrightarrow>
     length (vals_000 w) = length (goroutines_000 w) \<and>
     (\<forall>i<length (goroutines_000 w). vals_000 w ! i = value_of (goroutines_000 w ! i))"

definition inv_err_000 :: "('v, 'e) frame_000 \<Rightarrow> bool" where
  "inv_err_000 w =
     (case err_000 (group_000 w) of
        None \<Rightarrow> \<not> errOnce_000 (group_000 w) \<and> failures (goroutines_000 w) = {}
      | Some x \<Rightarrow> errOnce_000 (group_000 w) \<and> x \<in> failures (goroutines_000 w))"

definition inv_000 :: "('v::zero, 'e) task list \<Rightarrow> ('v, 'e) frame_000 \<Rightarrow> bool" where
  "inv_000 fs w \<longleftrightarrow>
     inv_wg_000 w \<and> inv_res fs (goroutines_000 w) \<and> inv_vals_000 w \<and> inv_err_000 w \<and>
     inv_run (goroutines_000 w)"

text \<open>
  Between two calls of \<open>Wait\<close>: an error slot that is set goes with a guard that has
  fired, and the counter is back at zero.
\<close>

definition fired_000 :: "('v, 'e) Group_000 \<Rightarrow> bool" where
  "fired_000 g = (case err_000 g of None \<Rightarrow> True | Some x \<Rightarrow> errOnce_000 g)"

definition idle_000 :: "('v, 'e) Group_000 \<Rightarrow> bool" where
  "idle_000 g \<longleftrightarrow> wg_000 g = 0 \<and> fired_000 g"

text \<open>
  The two fixed groups side by side: what a frame of \<^verbatim>\<open>grouper.go\<close> and a frame of
  \<^verbatim>\<open>part_000\<close> share when they run the same tasks under the same schedule.
\<close>

definition sim :: "('v, 'e) frame \<Rightarrow> ('v, 'e) frame_000 \<Rightarrow> bool" where
  "sim w w0 \<longleftrightarrow>
     goroutines_000 w0 = goroutines w \<and> ctx_000 w0 = ctx (group w) \<and>
     errOnce_000 (group_000 w0) = errOnce (group w) \<and> err_000 (group_000 w0) = err (group w) \<and>
     wg_000 (group_000 w0) = wg (group w) \<and> panicked_000 w0 = panicked w \<and>
     cancel (group w) = Some cancelCtx \<and> cancel_000 w0 = cancelCtx"

subsection \<open>\<^verbatim>\<open>src/dynamic.go\<close>\<close>

text \<open>
  The goroutines that \<open>Wait\<close> has received from. As long as the group is fresh, the
  counter is the number of goroutines started. In the loop of \<open>Wait\<close>, the index is the
  number of goroutines received from, and the slice holds their values up to the index.
\<close>

definition exited :: "('v, 'e) goroutine list \<Rightarrow> ('v, 'e) goroutine multiset" where
  "exited gs = filter_mset is_Exited (mset gs)"

definition inv_err_dyn :: "('v, 'e) state_dyn \<Rightarrow> bool" where
  "inv_err_dyn s =
     (case err_dyn (group_dyn s) of
        None \<Rightarrow> \<not> errOnce_dyn (group_dyn s) \<and> failures (goroutines_dyn s) = {}
      | Some x \<Rightarrow> errOnce_dyn (group_dyn s) \<and> x \<in> failures (goroutines_dyn s))"

definition inv_dyn :: "('v, 'e) task list \<Rightarrow> ('v, 'e) state_dyn \<Rightarrow> bool" where
  "inv_dyn fs s \<longleftrightarrow>
     cancel_dyn (group_dyn s) = Some cancelCtx \<and>
     count_dyn (group_dyn s) = of_nat (length (goroutines_dyn s)) \<and>
     inv_res fs (goroutines_dyn s) \<and> inv_err_dyn s"

definition loop_inv :: "nat \<Rightarrow> 'v::zero list \<Rightarrow> ('v, 'e) state_dyn \<Rightarrow> bool" where
  "loop_inv i vs s \<longleftrightarrow>
     size (exited (goroutines_dyn s)) = i \<and> i \<le> length vs \<and>
     image_mset value_of (exited (goroutines_dyn s)) = mset (take i vs)"

section \<open>Lemmas\<close>

subsection \<open>Tasks, lists of goroutines\<close>

lemma start_000_eq:
  "start_000 parent g =
     \<lparr>group_000 = g\<lparr>wg_000 := wg_000 g + length (funcs_000 g)\<rparr>,
      ctx_000 = \<lparr>Done = Done parent\<rparr>, cancel_000 = cancelCtx,
      vals_000 = replicate (length (funcs_000 g)) 0,
      goroutines_000 = map Running (funcs_000 g), panicked_000 = None\<rparr>"
  by (simp add: start_000_def WithCancel_def)

lemma Context_cases: "c = \<lparr>Done = False\<rparr> \<or> c = \<lparr>Done = True\<rparr>"
  by (cases c) auto

lemma height_Poll: "height (k c) < height (Poll k)"
  using Context_cases [of c] by auto

lemma returns_Poll: "returns (k c) r \<Longrightarrow> returns (Poll k) r"
  using Context_cases [of c] by auto

lemma filter_update_length:
  "i < length xs \<Longrightarrow>
   length (filter P (xs[i := y])) + (if P (xs ! i) then 1 else 0) =
   length (filter P xs) + (if P y then 1 else 0)"
proof (induction xs arbitrary: i)
  case Nil
  then show ?case by simp
next
  case (Cons x xs)
  then show ?case by (cases i) auto
qed

lemma sum_list_update_cost:
  "i < length gs \<Longrightarrow> sum_list (map f (gs[i := g])) + f (gs ! i) = sum_list (map f gs) + (f g :: nat)"
proof (induction gs arbitrary: i)
  case Nil
  then show ?case by simp
next
  case (Cons x xs)
  then show ?case by (cases i) auto
qed

subsection \<open>Steps of \<^verbatim>\<open>src/grouper.go\<close> keep the invariants\<close>

lemma step_cancel [simp]: "cancel (group (step ev w)) = cancel (group w)"
  by (cases ev)
     (auto simp: returned_def wg_Done_def errOnce_Do_def
           split: goroutine.splits task.splits option.splits)

lemma step_funcs [simp]: "funcs (group (step ev w)) = funcs (group w)"
  by (cases ev)
     (auto simp: returned_def wg_Done_def errOnce_Do_def
           split: goroutine.splits task.splits option.splits)

lemma step_length_goroutines [simp]: "length (goroutines (step ev w)) = length (goroutines w)"
  by (cases ev)
     (auto simp: returned_def wg_Done_def errOnce_Do_def
           split: goroutine.splits task.splits option.splits)

lemma step_length_vals [simp]: "length (vals (step ev w)) = length (vals w)"
  by (cases ev)
     (auto simp: returned_def wg_Done_def errOnce_Do_def
           split: goroutine.splits task.splits option.splits)

lemma step_Run_cases:
  obtains
    (idle) "step (Run i) w = w"
  | (poll) k where "panicked w = None" "i < length (goroutines w)"
      "goroutines w ! i = Running (Poll k)"
      "step (Run i) w = w\<lparr>goroutines := (goroutines w)[i := Running (k (ctx (group w)))]\<rparr>"
  | (ok) v where "panicked w = None" "i < length (goroutines w)"
      "goroutines w ! i = Running (Return v None)"
      "step (Run i) w =
         wg_Done (w\<lparr>vals := (vals w)[i := v], goroutines := (goroutines w)[i := Exited v None]\<rparr>)"
  | (fail) v x where "panicked w = None" "i < length (goroutines w)"
      "goroutines w ! i = Running (Return v (Some x))"
      "step (Run i) w =
         wg_Done (w\<lparr>group := errOnce_Do x (group w),
                    goroutines := (goroutines w)[i := Exited v (Some x)]\<rparr>)"
proof (cases "panicked w \<noteq> None \<or> length (goroutines w) \<le> i")
  case True
  then have "step (Run i) w = w" by auto
  then show ?thesis by (rule idle)
next
  case False
  then have p: "panicked w = None" and l: "i < length (goroutines w)" by auto
  show ?thesis
  proof (cases "goroutines w ! i")
    case (Running t)
    show ?thesis
    proof (cases t)
      case (Return v e)
      show ?thesis
      proof (cases e)
        case None
        have "step (Run i) w =
           wg_Done (w\<lparr>vals := (vals w)[i := v], goroutines := (goroutines w)[i := Exited v None]\<rparr>)"
          using False Running Return None by (simp add: returned_def)
        then show ?thesis using ok p l Running Return None by blast
      next
        case (Some x)
        have "step (Run i) w =
           wg_Done (w\<lparr>group := errOnce_Do x (group w),
                      goroutines := (goroutines w)[i := Exited v (Some x)]\<rparr>)"
          using False Running Return Some by (simp add: returned_def)
        then show ?thesis using fail p l Running Return Some by blast
      qed
    next
      case (Poll k)
      have "step (Run i) w = w\<lparr>goroutines := (goroutines w)[i := Running (k (ctx (group w)))]\<rparr>"
        using False Running Poll by simp
      then show ?thesis using poll p l Running Poll by blast
    qed
  next
    case (Sending v e)
    then have "step (Run i) w = w" using False by simp
    then show ?thesis by (rule idle)
  next
    case (Exited v e)
    then have "step (Run i) w = w" using False by simp
    then show ?thesis by (rule idle)
  qed
qed

lemma wg_Done_fields [simp]:
  "goroutines (wg_Done w) = goroutines w"
  "vals (wg_Done w) = vals w"
  "err (group (wg_Done w)) = err (group w)"
  "errOnce (group (wg_Done w)) = errOnce (group w)"
  "ctx (group (wg_Done w)) = ctx (group w)"
  "cancel (group (wg_Done w)) = cancel (group w)"
  "funcs (group (wg_Done w)) = funcs (group w)"
  by (simp_all add: wg_Done_def)

lemma errOnce_Do_fields [simp]:
  "wg (errOnce_Do x g) = wg g"
  "cancel (errOnce_Do x g) = cancel g"
  "funcs (errOnce_Do x g) = funcs g"
  "errOnce (errOnce_Do x g) = True"
  "err (errOnce_Do x g) = (if errOnce g then err g else Some x)"
  by (simp_all add: errOnce_Do_def split: option.splits)

lemma running_exit:
  assumes "i < length gs" "is_Running (gs ! i)" "\<not> is_Running g"
  shows "length (filter is_Running gs) \<noteq> 0"
    and "length (filter is_Running (gs[i := g])) = length (filter is_Running gs) - 1"
  using filter_update_length [OF assms(1), of is_Running g] assms(2,3) by auto

lemma running_stay:
  assumes "i < length gs" "is_Running (gs ! i)" "is_Running g"
  shows "length (filter is_Running (gs[i := g])) = length (filter is_Running gs)"
  using filter_update_length [OF assms(1), of is_Running g] assms(2,3) by auto

lemma inv_wg_step: 
  assumes a: "inv_wg w"
  shows "inv_wg (step ev w)"
proof (cases ev)
  case (Run i)
  have "inv_wg (step (Run i) w)"
  proof (cases rule: step_Run_cases [of i w])
    case idle
    then show ?thesis using a by simp
  next
    case (poll k)
    then show ?thesis using a running_stay [of i "goroutines w" "Running (k (ctx (group w)))"]
      by (simp add: inv_wg_def)
  next
    case (ok v)
    then show ?thesis using a running_exit [of i "goroutines w" "Exited v None"]
      by (simp add: inv_wg_def wg_Done_def)
  next
    case (fail v x)
    then show ?thesis using a running_exit [of i "goroutines w" "Exited v (Some x)"]
      by (simp add: inv_wg_def wg_Done_def)
  qed
  then show ?thesis using Run by simp
next
  case ParentCancel
  then show ?thesis using a by (simp add: inv_wg_def)
qed

lemma inv_res_update:
  assumes "inv_res fs gs" "i < length gs" "\<And>r. may_end g r \<Longrightarrow> may_end (gs ! i) r"
  shows "inv_res fs (gs[i := g])"
  using assms by (auto simp: inv_res_def nth_list_update)

lemma inv_res_step:
  assumes a: "inv_res fs (goroutines w)"
  shows "inv_res fs (goroutines (step ev w))"
proof (cases ev)
  case (Run i)
  have "inv_res fs (goroutines (step (Run i) w))"
  proof (cases rule: step_Run_cases [of i w])
    case idle
    then show ?thesis using a by simp
  next
    case (poll k)
    then show ?thesis using inv_res_update [OF a, of i "Running (k (ctx (group w)))"] returns_Poll [of k]
      by simp
  next
    case (ok v)
    then show ?thesis using inv_res_update [OF a, of i "Exited v None"] by simp
  next
    case (fail v x)
    then show ?thesis using inv_res_update [OF a, of i "Exited v (Some x)"] by simp
  qed
  then show ?thesis using Run by simp
next
  case ParentCancel
  then show ?thesis using a by simp
qed

lemma inv_vals_step:
  assumes a: "inv_vals w"
  shows "inv_vals (step ev w)"
proof (cases ev)
  case (Run i)
  have "inv_vals (step (Run i) w)"
  proof (cases rule: step_Run_cases [of i w])
    case idle
    then show ?thesis using a by simp
  next
    case (poll k)
    then show ?thesis using a by (simp add: inv_vals_def nth_list_update)
  next
    case (ok v)
    then show ?thesis using a by (simp add: inv_vals_def nth_list_update)
  next
    case (fail v x)
    then show ?thesis using a by (simp add: inv_vals_def nth_list_update)
  qed
  then show ?thesis using Run by simp
next
  case ParentCancel
  then show ?thesis using a by (simp add: inv_vals_def)
qed

lemma failures_update:
  assumes i: "i < length gs" and r: "result (gs ! i) = None"
  shows "failures (gs[i := g]) = failures gs \<union> {x. \<exists>v. result g = Some (v, Some x)}"
proof (rule set_eqI)
  fix x
  show "x \<in> failures (gs[i := g]) \<longleftrightarrow> x \<in> failures gs \<union> {x. \<exists>v. result g = Some (v, Some x)}"
  proof
    assume "x \<in> failures (gs[i := g])"
    then obtain j v where j: "j < length gs" "result (gs[i := g] ! j) = Some (v, Some x)"
      by (auto simp: failures_def)
    show "x \<in> failures gs \<union> {x. \<exists>v. result g = Some (v, Some x)}"
    proof (cases "j = i")
      case True
      then have "result g = Some (v, Some x)" using j i by simp
      then show ?thesis by blast
    next
      case False
      then have "result (gs ! j) = Some (v, Some x)" using j by simp
      then have "x \<in> failures gs" using j(1) unfolding failures_def by blast
      then show ?thesis by blast
    qed
  next
    assume "x \<in> failures gs \<union> {x. \<exists>v. result g = Some (v, Some x)}"
    then consider (old) "x \<in> failures gs" | (new) v where "result g = Some (v, Some x)"
      by blast
    then show "x \<in> failures (gs[i := g])"
    proof cases
      case old
      then obtain j v where j: "j < length gs" "result (gs ! j) = Some (v, Some x)"
        by (auto simp: failures_def)
      then have "j \<noteq> i" using r by auto
      then have "result (gs[i := g] ! j) = Some (v, Some x)" using j by simp
      then show ?thesis using j(1) unfolding failures_def by auto
    next
      case new
      then have "result (gs[i := g] ! i) = Some (v, Some x)" using i by simp
      then show ?thesis using i unfolding failures_def by auto
    qed
  qed
qed

lemma failures_replicate_Running [simp]: "failures (map Running fs) = {}"
  by (simp add: failures_def)

lemma inv_err_step:
  assumes a: "inv_err w"
  shows "inv_err (step ev w)"
proof (cases ev)
  case (Run i)
  have "inv_err (step (Run i) w)"
  proof (cases rule: step_Run_cases [of i w])
    case idle
    then show ?thesis using a by simp
  next
    case (poll k)
    then show ?thesis using a failures_update [of i "goroutines w" "Running (k (ctx (group w)))"]
      by (auto simp: inv_err_def split: option.splits)
  next
    case (ok v)
    then show ?thesis using a failures_update [of i "goroutines w" "Exited v None"]
      by (auto simp: inv_err_def split: option.splits)
  next
    case (fail v x)
    then show ?thesis using a failures_update [of i "goroutines w" "Exited v (Some x)"]
      by (auto simp: inv_err_def split: option.splits)
  qed
  then show ?thesis using Run by simp
next
  case ParentCancel
  then show ?thesis using a by (auto simp: inv_err_def split: option.splits)
qed

lemma todo_update:
  "i < length gs \<Longrightarrow> cost g < cost (gs ! i) \<Longrightarrow> todo (gs[i := g]) < todo gs"
  using sum_list_update_cost [of i gs cost g] by (simp add: todo_def)

lemma Running_exists:
  assumes "length (filter is_Running gs) \<noteq> 0"
  shows "\<exists>i t. i < length gs \<and> gs ! i = Running t"
proof -
  from assms obtain g gs' where "filter is_Running gs = g # gs'"
    by (cases "filter is_Running gs") auto
  then have "g \<in> set (filter is_Running gs)" by simp
  then have "g \<in> set gs" "is_Running g" by simp_all
  then obtain i where i: "i < length gs" "gs ! i = g"
    by (auto simp: in_set_conv_nth)
  obtain t where "g = Running t" using \<open>is_Running g\<close> by (cases g) auto
  then show ?thesis using i by blast
qed

lemma step_todo:
  assumes "panicked w = None" "i < length (goroutines w)" "goroutines w ! i = Running t"
  shows "todo (goroutines (step (Run i) w)) < todo (goroutines w)"
proof (cases t)
  case (Return v e)
  then show ?thesis using assms todo_update [of i "goroutines w" "Exited v e"]
    by (simp add: returned_def split: option.splits)
next
  case (Poll k)
  then show ?thesis
    using assms todo_update [of i "goroutines w" "Running (k (ctx (group w)))"] height_Poll [of k]
    by simp
qed

lemma can_finish:
  "inv_wg w \<Longrightarrow> \<exists>sched. wg (group (fold step sched w)) = 0 \<and> panicked (fold step sched w) = None"
proof (induction "todo (goroutines w)" arbitrary: w rule: less_induct)
  case less
  show ?case
  proof (cases "wg (group w) = 0")
    case True
    then have "wg (group (fold step [] w)) = 0 \<and> panicked (fold step [] w) = None"
      using less.prems by (simp add: inv_wg_def)
    then show ?thesis by blast
  next
    case False
    then obtain i t where i: "i < length (goroutines w)" "goroutines w ! i = Running t"
      using less.prems Running_exists [of "goroutines w"] by (auto simp: inv_wg_def)
    have "todo (goroutines (step (Run i) w)) < todo (goroutines w)"
      using step_todo [OF _ i] less.prems by (simp add: inv_wg_def)
    then obtain sched where
      "wg (group (fold step sched (step (Run i) w))) = 0 \<and>
       panicked (fold step sched (step (Run i) w)) = None"
      using less.hyps [of "step (Run i) w"] inv_wg_step [OF less.prems] by blast
    then have "wg (group (fold step (Run i # sched) w)) = 0 \<and>
       panicked (fold step (Run i # sched) w) = None" by simp
    then show ?thesis by blast
  qed
qed

lemma inv_run_update: "inv_run gs \<Longrightarrow> is_Running g \<or> is_Exited g \<Longrightarrow> inv_run (gs[i := g])"
  using set_update_subset_insert [of gs i g] by (auto simp: inv_run_def list_all_iff)

lemma inv_run_step:
  assumes a: "inv_run (goroutines w)"
  shows "inv_run (goroutines (step ev w))"
proof (cases ev)
  case (Run i)
  have "inv_run (goroutines (step (Run i) w))"
  proof (cases rule: step_Run_cases [of i w])
    case idle
    then show ?thesis using a by simp
  next
    case (poll k)
    then show ?thesis using inv_run_update [OF a] by simp
  next
    case (ok v)
    then show ?thesis using inv_run_update [OF a] by simp
  next
    case (fail v x)
    then show ?thesis using inv_run_update [OF a] by simp
  qed
  then show ?thesis using Run by simp
next
  case ParentCancel
  then show ?thesis using a by simp
qed

lemma inv_step: "inv fs w \<Longrightarrow> inv fs (step ev w)"
  unfolding inv_def
  using inv_wg_step inv_res_step inv_vals_step inv_err_step inv_run_step step_cancel
  by metis

lemma inv_fold: "inv fs w \<Longrightarrow> inv fs (fold step sched w)"
  by (induction sched arbitrary: w) (simp_all add: inv_step)

lemma New_Inr:
  "New parent fs = Inr (g, c) \<longleftrightarrow>
   fs \<noteq> [] \<and> c = \<lparr>Done = Done parent\<rparr> \<and>
   g = \<lparr>ctx = c, cancel = Some cancelCtx, wg = length fs, errOnce = False, err = None, funcs = fs\<rparr>"
  by (auto simp: New_def WithCancel_def)

lemma inv_start: "New parent fs = Inr (g, c) \<Longrightarrow> inv fs (start g)"
  by (simp add: New_Inr inv_def start_def inv_wg_def inv_res_def inv_vals_def inv_err_def
        inv_run_def list_all_iff)

lemma Wait_Returned:
  "Wait sched g = Returned (vs, e, w) \<longleftrightarrow>
     panicked (fold step sched (start g)) = None \<and> wg (group (fold step sched (start g))) = 0 \<and>
     (\<exists>cf. cancel (group (fold step sched (start g))) = Some cf \<and>
       vs = vals (fold step sched (start g)) \<and> e = err (group (fold step sched (start g))) \<and>
       w = (fold step sched (start g))\<lparr>group := (group (fold step sched (start g)))\<lparr>ctx := cf (ctx (group (fold step sched (start g))))\<rparr>\<rparr>)"
  by (auto simp: Wait_def start_def Let_def split: option.splits)

lemma all_Exited:
  assumes "inv_run gs" "length (filter is_Running gs) = 0" "i < length gs"
  shows "\<exists>v e. gs ! i = Exited v e"
proof -
  have "gs ! i \<in> set gs" using assms(3) by simp
  then have "\<not> is_Running (gs ! i)" "is_Running (gs ! i) \<or> is_Exited (gs ! i)"
    using assms(1,2) by (auto simp: inv_run_def list_all_iff filter_empty_conv)
  then show ?thesis by (cases "gs ! i") auto
qed

lemma Wait_post:
  assumes new: "New parent fs = Inr (g, c)" and ret: "Wait sched g = Returned (vs, e, w)"
  shows "length vs = length fs"
    and "length (goroutines w) = length fs"
    and "\<forall>i<length fs. \<exists>v e'. goroutines w ! i = Exited v e' \<and> returns (fs ! i) (v, e') \<and>
           vs ! i = (case e' of None \<Rightarrow> v | Some x \<Rightarrow> 0)"
    and "case e of None \<Rightarrow> failures (goroutines w) = {} | Some x \<Rightarrow> x \<in> failures (goroutines w)"
    and "Done (ctx (group w))"
proof -
  define w' where "w' = fold step sched (start g)"
  have i: "inv fs w'" unfolding w'_def by (rule inv_fold [OF inv_start [OF new]])
  have r: "wg (group w') = 0" "vs = vals w'" "e = err (group w')"
    "w = w'\<lparr>group := (group w')\<lparr>ctx := cancelCtx (ctx (group w'))\<rparr>\<rparr>"
    using ret i unfolding Wait_Returned w'_def [symmetric] by (auto simp: inv_def)
  have gs: "goroutines w = goroutines w'" using r(4) by simp
  have len: "length (goroutines w') = length fs" "length (vals w') = length fs"
    using i by (auto simp: inv_def inv_res_def inv_vals_def)
  show "length vs = length fs" using len r by simp
  show "length (goroutines w) = length fs" using len gs by simp
  show "\<forall>i<length fs. \<exists>v e'. goroutines w ! i = Exited v e' \<and> returns (fs ! i) (v, e') \<and>
           vs ! i = (case e' of None \<Rightarrow> v | Some x \<Rightarrow> 0)"
  proof (intro allI impI)
    fix k assume k: "k < length fs"
    have "inv_run (goroutines w')" "length (filter is_Running (goroutines w')) = 0"
      using i r(1) by (auto simp: inv_def inv_wg_def)
    then obtain v e' where ex: "goroutines w' ! k = Exited v e'"
      using all_Exited [of "goroutines w'" k] k len by auto
    have "returns (fs ! k) (v, e')"
      using i k ex by (auto simp: inv_def inv_res_def)
    moreover have "vals w' ! k = (case e' of None \<Rightarrow> v | Some x \<Rightarrow> 0)"
      using i k ex len by (auto simp: inv_def inv_vals_def)
    ultimately show "\<exists>v e'. goroutines w ! k = Exited v e' \<and> returns (fs ! k) (v, e') \<and>
           vs ! k = (case e' of None \<Rightarrow> v | Some x \<Rightarrow> 0)"
      using ex gs r(2) by simp
  qed
  show "case e of None \<Rightarrow> failures (goroutines w) = {} | Some x \<Rightarrow> x \<in> failures (goroutines w)"
    using i r(3) gs by (auto simp: inv_def inv_err_def split: option.splits)
  show "Done (ctx (group w))" using r(4) by (simp add: cancelCtx_def)
qed

lemma Wait_returns:
  assumes new: "New parent fs = Inr (g, c)"
  shows "\<exists>sched' r. Wait (sched @ sched') g = Returned r"
proof -
  have i: "inv fs (fold step sched (start g))" by (rule inv_fold [OF inv_start [OF new]])
  then obtain sched' where s: "wg (group (fold step sched' (fold step sched (start g)))) = 0"
      "panicked (fold step sched' (fold step sched (start g))) = None"
    using can_finish [of "fold step sched (start g)"] by (auto simp: inv_def)
  have "inv fs (fold step (sched @ sched') (start g))" by (rule inv_fold [OF inv_start [OF new]])
  then have "cancel (group (fold step (sched @ sched') (start g))) = Some cancelCtx"
    by (simp add: inv_def)
  then have "\<exists>r. Wait (sched @ sched') g = Returned r"
    using s by (simp add: Wait_def start_def Let_def)
  then show ?thesis by blast
qed

subsection \<open>Steps of \<^verbatim>\<open>src/unnamed/part_000\<close> keep the invariants\<close>

lemma wg_Done_000_fields [simp]:
  "goroutines_000 (wg_Done_000 w) = goroutines_000 w"
  "vals_000 (wg_Done_000 w) = vals_000 w"
  "ctx_000 (wg_Done_000 w) = ctx_000 w"
  "cancel_000 (wg_Done_000 w) = cancel_000 w"
  "err_000 (group_000 (wg_Done_000 w)) = err_000 (group_000 w)"
  "errOnce_000 (group_000 (wg_Done_000 w)) = errOnce_000 (group_000 w)"
  "funcs_000 (group_000 (wg_Done_000 w)) = funcs_000 (group_000 w)"
  by (simp_all add: wg_Done_000_def)

lemma errOnce_Do_000_fields [simp]:
  "goroutines_000 (errOnce_Do_000 x w) = goroutines_000 w"
  "vals_000 (errOnce_Do_000 x w) = vals_000 w"
  "panicked_000 (errOnce_Do_000 x w) = panicked_000 w"
  "cancel_000 (errOnce_Do_000 x w) = cancel_000 w"
  "wg_000 (group_000 (errOnce_Do_000 x w)) = wg_000 (group_000 w)"
  "funcs_000 (group_000 (errOnce_Do_000 x w)) = funcs_000 (group_000 w)"
  "errOnce_000 (group_000 (errOnce_Do_000 x w)) = True"
  "err_000 (group_000 (errOnce_Do_000 x w)) =
     (if errOnce_000 (group_000 w) then err_000 (group_000 w) else Some x)"
  by (simp_all add: errOnce_Do_000_def)

lemma step_000_Run_cases:
  obtains
    (idle) "step_000 (Run i) w = w"
  | (poll) k where "panicked_000 w = None" "i < length (goroutines_000 w)"
      "goroutines_000 w ! i = Running (Poll k)"
      "step_000 (Run i) w = w\<lparr>goroutines_000 := (goroutines_000 w)[i := Running (k (ctx_000 w))]\<rparr>"
  | (ok) v where "panicked_000 w = None" "i < length (goroutines_000 w)"
      "goroutines_000 w ! i = Running (Return v None)"
      "step_000 (Run i) w =
         wg_Done_000 (w\<lparr>vals_000 := (vals_000 w)[i := v],
                        goroutines_000 := (goroutines_000 w)[i := Exited v None]\<rparr>)"
  | (fail) v x where "panicked_000 w = None" "i < length (goroutines_000 w)"
      "goroutines_000 w ! i = Running (Return v (Some x))"
      "step_000 (Run i) w =
         wg_Done_000 ((errOnce_Do_000 x w)\<lparr>vals_000 := (vals_000 w)[i := v],
                        goroutines_000 := (goroutines_000 w)[i := Exited v (Some x)]\<rparr>)"
proof (cases "panicked_000 w \<noteq> None \<or> length (goroutines_000 w) \<le> i")
  case True
  then have "step_000 (Run i) w = w" by auto
  then show ?thesis by (rule idle)
next
  case False
  then have p: "panicked_000 w = None" and l: "i < length (goroutines_000 w)" by auto
  show ?thesis
  proof (cases "goroutines_000 w ! i")
    case (Running t)
    show ?thesis
    proof (cases t)
      case (Return v e)
      show ?thesis
      proof (cases e)
        case None
        have "step_000 (Run i) w =
           wg_Done_000 (w\<lparr>vals_000 := (vals_000 w)[i := v],
                          goroutines_000 := (goroutines_000 w)[i := Exited v None]\<rparr>)"
          using False Running Return None by (simp add: returned_000_def)
        then show ?thesis using ok p l Running Return None by blast
      next
        case (Some x)
        have "step_000 (Run i) w =
           wg_Done_000 ((errOnce_Do_000 x w)\<lparr>vals_000 := (vals_000 w)[i := v],
                          goroutines_000 := (goroutines_000 w)[i := Exited v (Some x)]\<rparr>)"
          using False Running Return Some by (simp add: returned_000_def Let_def)
        then show ?thesis using fail p l Running Return Some by blast
      qed
    next
      case (Poll k)
      have "step_000 (Run i) w =
          w\<lparr>goroutines_000 := (goroutines_000 w)[i := Running (k (ctx_000 w))]\<rparr>"
        using False Running Poll by simp
      then show ?thesis using poll p l Running Poll by blast
    qed
  next
    case (Sending v e)
    then have "step_000 (Run i) w = w" using False by simp
    then show ?thesis by (rule idle)
  next
    case (Exited v e)
    then have "step_000 (Run i) w = w" using False by simp
    then show ?thesis by (rule idle)
  qed
qed

lemma inv_wg_000_step:
  assumes a: "inv_wg_000 w"
  shows "inv_wg_000 (step_000 ev w)"
proof (cases ev)
  case (Run i)
  have "inv_wg_000 (step_000 (Run i) w)"
  proof (cases rule: step_000_Run_cases [of i w])
    case idle
    then show ?thesis using a by simp
  next
    case (poll k)
    then show ?thesis using a running_stay [of i "goroutines_000 w" "Running (k (ctx_000 w))"]
      by (simp add: inv_wg_000_def)
  next
    case (ok v)
    then show ?thesis using a running_exit [of i "goroutines_000 w" "Exited v None"]
      by (simp add: inv_wg_000_def wg_Done_000_def)
  next
    case (fail v x)
    then show ?thesis using a running_exit [of i "goroutines_000 w" "Exited v (Some x)"]
      by (simp add: inv_wg_000_def wg_Done_000_def)
  qed
  then show ?thesis using Run by simp
next
  case ParentCancel
  then show ?thesis using a by (simp add: inv_wg_000_def)
qed

lemma inv_res_000_step:
  assumes a: "inv_res fs (goroutines_000 w)"
  shows "inv_res fs (goroutines_000 (step_000 ev w))"
proof (cases ev)
  case (Run i)
  have "inv_res fs (goroutines_000 (step_000 (Run i) w))"
  proof (cases rule: step_000_Run_cases [of i w])
    case idle
    then show ?thesis using a by simp
  next
    case (poll k)
    then show ?thesis
      using inv_res_update [OF a, of i "Running (k (ctx_000 w))"] returns_Poll [of k] by simp
  next
    case (ok v)
    then show ?thesis using inv_res_update [OF a, of i "Exited v None"] by simp
  next
    case (fail v x)
    then show ?thesis using inv_res_update [OF a, of i "Exited v (Some x)"] by simp
  qed
  then show ?thesis using Run by simp
next
  case ParentCancel
  then show ?thesis using a by simp
qed

lemma inv_run_000_step:
  assumes a: "inv_run (goroutines_000 w)"
  shows "inv_run (goroutines_000 (step_000 ev w))"
proof (cases ev)
  case (Run i)
  have "inv_run (goroutines_000 (step_000 (Run i) w))"
  proof (cases rule: step_000_Run_cases [of i w])
    case idle
    then show ?thesis using a by simp
  next
    case (poll k)
    then show ?thesis using inv_run_update [OF a] by simp
  next
    case (ok v)
    then show ?thesis using inv_run_update [OF a] by simp
  next
    case (fail v x)
    then show ?thesis using inv_run_update [OF a] by simp
  qed
  then show ?thesis using Run by simp
next
  case ParentCancel
  then show ?thesis using a by simp
qed

lemma inv_vals_000_step:
  assumes a: "inv_vals_000 w"
  shows "inv_vals_000 (step_000 ev w)"
proof (cases ev)
  case (Run i)
  have "inv_vals_000 (step_000 (Run i) w)"
  proof (cases rule: step_000_Run_cases [of i w])
    case idle
    then show ?thesis using a by simp
  next
    case (poll k)
    then show ?thesis using a by (simp add: inv_vals_000_def nth_list_update)
  next
    case (ok v)
    then show ?thesis using a by (simp add: inv_vals_000_def nth_list_update)
  next
    case (fail v x)
    then show ?thesis using a by (simp add: inv_vals_000_def nth_list_update)
  qed
  then show ?thesis using Run by simp
next
  case ParentCancel
  then show ?thesis using a by (simp add: inv_vals_000_def)
qed

lemma inv_err_000_step:
  assumes a: "inv_err_000 w"
  shows "inv_err_000 (step_000 ev w)"
proof (cases ev)
  case (Run i)
  have "inv_err_000 (step_000 (Run i) w)"
  proof (cases rule: step_000_Run_cases [of i w])
    case idle
    then show ?thesis using a by simp
  next
    case (poll k)
    then show ?thesis
      using a failures_update [of i "goroutines_000 w" "Running (k (ctx_000 w))"]
      by (auto simp: inv_err_000_def split: option.splits)
  next
    case (ok v)
    then show ?thesis using a failures_update [of i "goroutines_000 w" "Exited v None"]
      by (auto simp: inv_err_000_def split: option.splits)
  next
    case (fail v x)
    then show ?thesis using a failures_update [of i "goroutines_000 w" "Exited v (Some x)"]
      by (auto simp: inv_err_000_def split: option.splits)
  qed
  then show ?thesis using Run by simp
next
  case ParentCancel
  then show ?thesis using a by (simp add: inv_err_000_def split: option.splits)
qed

lemma step_000_fired:
  assumes a: "fired_000 (group_000 w)"
  shows "fired_000 (group_000 (step_000 ev w))"
proof (cases ev)
  case (Run i)
  have "fired_000 (group_000 (step_000 (Run i) w))"
  proof (cases rule: step_000_Run_cases [of i w])
    case idle
    then show ?thesis using a by simp
  next
    case (poll k)
    then show ?thesis using a by (simp add: fired_000_def)
  next
    case (ok v)
    then show ?thesis using a by (simp add: fired_000_def split: option.splits)
  next
    case (fail v x)
    then show ?thesis using a by (simp add: fired_000_def split: option.splits)
  qed
  then show ?thesis using Run by simp
next
  case ParentCancel
  then show ?thesis using a by simp
qed

lemma step_000_keeps_err:
  assumes a: "errOnce_000 (group_000 w)"
  shows "errOnce_000 (group_000 (step_000 ev w)) \<and>
         err_000 (group_000 (step_000 ev w)) = err_000 (group_000 w)"
proof (cases ev)
  case (Run i)
  have "errOnce_000 (group_000 (step_000 (Run i) w)) \<and>
         err_000 (group_000 (step_000 (Run i) w)) = err_000 (group_000 w)"
  proof (cases rule: step_000_Run_cases [of i w])
    case idle
    then show ?thesis using a by simp
  next
    case (poll k)
    then show ?thesis using a by simp
  next
    case (ok v)
    then show ?thesis using a by simp
  next
    case (fail v x)
    then show ?thesis using a by simp
  qed
  then show ?thesis using Run by simp
next
  case ParentCancel
  then show ?thesis using a by simp
qed

lemma step_000_funcs [simp]: "funcs_000 (group_000 (step_000 ev w)) = funcs_000 (group_000 w)"
proof (cases ev)
  case (Run i)
  have "funcs_000 (group_000 (step_000 (Run i) w)) = funcs_000 (group_000 w)"
    by (cases rule: step_000_Run_cases [of i w]) simp_all
  then show ?thesis using Run by simp
next
  case ParentCancel
  then show ?thesis by simp
qed

lemma step_000_cancel [simp]: "cancel_000 (step_000 ev w) = cancel_000 w"
proof (cases ev)
  case (Run i)
  have "cancel_000 (step_000 (Run i) w) = cancel_000 w"
    by (cases rule: step_000_Run_cases [of i w]) simp_all
  then show ?thesis using Run by simp
next
  case ParentCancel
  then show ?thesis by simp
qed

lemma inv_000_step: "inv_000 fs w \<Longrightarrow> inv_000 fs (step_000 ev w)"
  unfolding inv_000_def
  using inv_wg_000_step inv_res_000_step inv_vals_000_step inv_err_000_step inv_run_000_step
  by metis

lemma inv_000_fold: "inv_000 fs w \<Longrightarrow> inv_000 fs (fold step_000 sched w)"
  by (induction sched arbitrary: w) (simp_all add: inv_000_step)

lemma inv_wg_000_fold: "inv_wg_000 w \<Longrightarrow> inv_wg_000 (fold step_000 sched w)"
  by (induction sched arbitrary: w) (simp_all add: inv_wg_000_step)

lemma fired_000_fold: "fired_000 (group_000 w) \<Longrightarrow> fired_000 (group_000 (fold step_000 sched w))"
  by (induction sched arbitrary: w) (simp_all add: step_000_fired)

lemma keeps_err_000_fold:
  "errOnce_000 (group_000 w) \<Longrightarrow>
   errOnce_000 (group_000 (fold step_000 sched w)) \<and>
   err_000 (group_000 (fold step_000 sched w)) = err_000 (group_000 w)"
proof (induction sched arbitrary: w)
  case Nil
  then show ?case by simp
next
  case (Cons ev sched)
  then show ?case using step_000_keeps_err [of w ev] by simp
qed

lemma funcs_000_fold [simp]:
  "funcs_000 (group_000 (fold step_000 sched w)) = funcs_000 (group_000 w)"
  by (induction sched arbitrary: w) simp_all

lemma cancel_000_fold [simp]: "cancel_000 (fold step_000 sched w) = cancel_000 w"
  by (induction sched arbitrary: w) simp_all

lemma New_000_Inr:
  "New_000 fs = Inr g \<longleftrightarrow>
   fs \<noteq> [] \<and> g = \<lparr>wg_000 = 0, errOnce_000 = False, err_000 = None, funcs_000 = fs\<rparr>"
  by (auto simp: New_000_def)

lemma inv_000_start: "New_000 fs = Inr g \<Longrightarrow> inv_000 fs (start_000 parent g)"
  by (simp add: New_000_Inr inv_000_def start_000_eq inv_wg_000_def inv_res_def inv_vals_000_def
        inv_err_000_def inv_run_def list_all_iff)

lemma inv_wg_000_start: "wg_000 g = 0 \<Longrightarrow> inv_wg_000 (start_000 parent g)"
  by (simp add: inv_wg_000_def start_000_eq)

lemma Wait_000_Returned:
  "Wait_000 parent sched g = Returned (vs, e, w) \<longleftrightarrow>
     panicked_000 (fold step_000 sched (start_000 parent g)) = None \<and>
     wg_000 (group_000 (fold step_000 sched (start_000 parent g))) = 0 \<and>
     vs = vals_000 (fold step_000 sched (start_000 parent g)) \<and>
     e = err_000 (group_000 (fold step_000 sched (start_000 parent g))) \<and>
     w = (fold step_000 sched (start_000 parent g))
           \<lparr>ctx_000 := cancelCtx (ctx_000 (fold step_000 sched (start_000 parent g)))\<rparr>"
  by (auto simp: Wait_000_def WithCancel_def start_000_eq Let_def split: option.splits)

lemma Wait_000_post:
  assumes new: "New_000 fs = Inr g" and ret: "Wait_000 parent sched g = Returned (vs, e, w)"
  shows "length vs = length fs"
    and "length (goroutines_000 w) = length fs"
    and "\<forall>i<length fs. \<exists>v e'. goroutines_000 w ! i = Exited v e' \<and> returns (fs ! i) (v, e') \<and>
           vs ! i = v"
    and "case e of None \<Rightarrow> failures (goroutines_000 w) = {}
         | Some x \<Rightarrow> x \<in> failures (goroutines_000 w)"
proof -
  define w' where "w' = fold step_000 sched (start_000 parent g)"
  have i: "inv_000 fs w'" unfolding w'_def by (rule inv_000_fold [OF inv_000_start [OF new]])
  have r: "wg_000 (group_000 w') = 0" "vs = vals_000 w'" "e = err_000 (group_000 w')"
    "w = w'\<lparr>ctx_000 := cancelCtx (ctx_000 w')\<rparr>"
    using ret unfolding Wait_000_Returned w'_def [symmetric] by auto
  have gs: "goroutines_000 w = goroutines_000 w'" using r(4) by simp
  have len: "length (goroutines_000 w') = length fs" "length (vals_000 w') = length fs"
    using i by (auto simp: inv_000_def inv_res_def inv_vals_000_def)
  show "length vs = length fs" using len r by simp
  show "length (goroutines_000 w) = length fs" using len gs by simp
  show "\<forall>i<length fs. \<exists>v e'. goroutines_000 w ! i = Exited v e' \<and> returns (fs ! i) (v, e') \<and>
           vs ! i = v"
  proof (intro allI impI)
    fix k assume k: "k < length fs"
    have "inv_run (goroutines_000 w')" "length (filter is_Running (goroutines_000 w')) = 0"
      using i r(1) by (auto simp: inv_000_def inv_wg_000_def)
    then obtain v e' where ex: "goroutines_000 w' ! k = Exited v e'"
      using all_Exited [of "goroutines_000 w'" k] k len by auto
    have "returns (fs ! k) (v, e')"
      using i k ex by (auto simp: inv_000_def inv_res_def)
    moreover have "vals_000 w' ! k = v"
      using i k ex len by (auto simp: inv_000_def inv_vals_000_def)
    ultimately show "\<exists>v e'. goroutines_000 w ! k = Exited v e' \<and> returns (fs ! k) (v, e') \<and>
           vs ! k = v"
      using ex gs r(2) by simp
  qed
  show "case e of None \<Rightarrow> failures (goroutines_000 w) = {}
         | Some x \<Rightarrow> x \<in> failures (goroutines_000 w)"
    using i r(3) gs by (auto simp: inv_000_def inv_err_000_def split: option.splits)
qed

lemma Wait_000_Done:
  "Wait_000 parent sched g = Returned (vs, e, w) \<Longrightarrow> Done (ctx_000 w)"
  unfolding Wait_000_Returned by (simp add: cancelCtx_def)

lemma returned_000_goroutines [simp]:
  "goroutines_000 (returned_000 i v e w) = (goroutines_000 w)[i := Exited v e]"
  by (cases e) (simp_all add: returned_000_def Let_def)

lemma step_000_todo:
  assumes "panicked_000 w = None" "i < length (goroutines_000 w)"
    "goroutines_000 w ! i = Running t"
  shows "todo (goroutines_000 (step_000 (Run i) w)) < todo (goroutines_000 w)"
proof (cases t)
  case (Return v e)
  then show ?thesis using assms todo_update [of i "goroutines_000 w" "Exited v e"]
    by simp
next
  case (Poll k)
  then show ?thesis
    using assms todo_update [of i "goroutines_000 w" "Running (k (ctx_000 w))"] height_Poll [of k]
    by simp
qed

lemma can_finish_000:
  "inv_wg_000 w \<Longrightarrow>
   \<exists>sched. wg_000 (group_000 (fold step_000 sched w)) = 0 \<and>
           panicked_000 (fold step_000 sched w) = None"
proof (induction "todo (goroutines_000 w)" arbitrary: w rule: less_induct)
  case less
  show ?case
  proof (cases "wg_000 (group_000 w) = 0")
    case True
    then have "wg_000 (group_000 (fold step_000 [] w)) = 0 \<and>
               panicked_000 (fold step_000 [] w) = None"
      using less.prems by (simp add: inv_wg_000_def)
    then show ?thesis by blast
  next
    case False
    then obtain i t where i: "i < length (goroutines_000 w)" "goroutines_000 w ! i = Running t"
      using less.prems Running_exists [of "goroutines_000 w"] by (auto simp: inv_wg_000_def)
    have "todo (goroutines_000 (step_000 (Run i) w)) < todo (goroutines_000 w)"
      using step_000_todo [OF _ i] less.prems by (simp add: inv_wg_000_def)
    then obtain sched where
      "wg_000 (group_000 (fold step_000 sched (step_000 (Run i) w))) = 0 \<and>
       panicked_000 (fold step_000 sched (step_000 (Run i) w)) = None"
      using less.hyps [of "step_000 (Run i) w"] inv_wg_000_step [OF less.prems] by blast
    then have "wg_000 (group_000 (fold step_000 (Run i # sched) w)) = 0 \<and>
       panicked_000 (fold step_000 (Run i # sched) w) = None" by simp
    then show ?thesis by blast
  qed
qed

lemma Wait_000_returns:
  assumes "wg_000 g = 0"
  shows "\<exists>sched' r. Wait_000 parent (sched @ sched') g = Returned r"
proof -
  have "inv_wg_000 (fold step_000 sched (start_000 parent g))"
    by (rule inv_wg_000_fold [OF inv_wg_000_start [OF assms]])
  then obtain sched' where
    "wg_000 (group_000 (fold step_000 sched' (fold step_000 sched (start_000 parent g)))) = 0"
    "panicked_000 (fold step_000 sched' (fold step_000 sched (start_000 parent g))) = None"
    using can_finish_000 by blast
  then have "\<exists>vs e w. Wait_000 parent (sched @ sched') g = Returned (vs, e, w)"
    unfolding Wait_000_Returned by simp
  then show ?thesis by blast
qed

lemma Wait_000_idle:
  assumes "idle_000 g" "Wait_000 parent sched g = Returned (vs, e, w)"
  shows "idle_000 (group_000 w)"
proof -
  have "fired_000 (group_000 (start_000 parent g))"
    using assms(1) by (simp add: idle_000_def start_000_eq fired_000_def split: option.splits)
  then have "fired_000 (group_000 (fold step_000 sched (start_000 parent g)))"
    by (rule fired_000_fold)
  then show ?thesis using assms(2) unfolding Wait_000_Returned by (simp add: idle_000_def)
qed

lemma Wait_000_keeps:
  assumes "errOnce_000 g" "Wait_000 parent sched g = Returned (vs, e, w)"
  shows "e = err_000 g" "errOnce_000 (group_000 w)" "err_000 (group_000 w) = err_000 g"
proof -
  have "errOnce_000 (group_000 (start_000 parent g))"
       "err_000 (group_000 (start_000 parent g)) = err_000 g"
    using assms(1) by (simp_all add: start_000_eq)
  then have "errOnce_000 (group_000 (fold step_000 sched (start_000 parent g))) \<and>
      err_000 (group_000 (fold step_000 sched (start_000 parent g))) = err_000 g"
    using keeps_err_000_fold [of "start_000 parent g" sched] by simp
  then show "e = err_000 g" "errOnce_000 (group_000 w)" "err_000 (group_000 w) = err_000 g"
    using assms(2) unfolding Wait_000_Returned by simp_all
qed

lemma Wait_000_error_fires:
  assumes "idle_000 g" "Wait_000 parent sched g = Returned (vs, Some x, w)"
  shows "errOnce_000 (group_000 w) \<and> err_000 (group_000 w) = Some x"
proof -
  have "idle_000 (group_000 w)" by (rule Wait_000_idle [OF assms])
  moreover have "err_000 (group_000 w) = Some x"
    using assms(2) unfolding Wait_000_Returned by simp
  ultimately show ?thesis by (simp add: idle_000_def fired_000_def)
qed

lemma Waits_000_idle:
  "idle_000 g \<Longrightarrow> Waits_000 cs g = Returned g' \<Longrightarrow> idle_000 g'"
proof (induction cs arbitrary: g)
  case Nil
  then show ?case by simp
next
  case (Cons c cs)
  from Cons.prems(2) obtain vs e w where
    w: "Wait_000 (fst c) (snd c) g = Returned (vs, e, w)" "Waits_000 cs (group_000 w) = Returned g'"
    by (auto split: call.splits)
  show ?case using Cons.IH [OF Wait_000_idle [OF Cons.prems(1) w(1)] w(2)] .
qed

lemma Waits_000_keeps:
  "errOnce_000 g \<Longrightarrow> Waits_000 cs g = Returned g' \<Longrightarrow> errOnce_000 g' \<and> err_000 g' = err_000 g"
proof (induction cs arbitrary: g)
  case Nil
  then show ?case by simp
next
  case (Cons c cs)
  from Cons.prems(2) obtain vs e w where
    w: "Wait_000 (fst c) (snd c) g = Returned (vs, e, w)" "Waits_000 cs (group_000 w) = Returned g'"
    by (auto split: call.splits)
  show ?case
    using Cons.IH [OF Wait_000_keeps(2) [OF Cons.prems(1) w(1)] w(2)]
      Wait_000_keeps(3) [OF Cons.prems(1) w(1)] by simp
qed

lemma New_000_idle: "New_000 fs = Inr g \<Longrightarrow> idle_000 g"
  by (auto simp: New_000_Inr idle_000_def fired_000_def)

subsection \<open>The dynamic group\<close>

lemma failures_update_same:
  assumes "i < length gs" "result g = result (gs ! i)"
  shows "failures (gs[i := g]) = failures gs"
proof -
  have "\<And>j. j < length gs \<Longrightarrow> result (gs[i := g] ! j) = result (gs ! j)"
    using assms by (simp add: nth_list_update)
  then show ?thesis unfolding failures_def by auto
qed

lemma failures_append_Running [simp]: "failures (gs @ [Running f]) = failures gs"
proof (rule set_eqI)
  fix x
  show "x \<in> failures (gs @ [Running f]) \<longleftrightarrow> x \<in> failures gs"
  proof
    assume "x \<in> failures (gs @ [Running f])"
    then obtain j v where j: "j < Suc (length gs)"
        "result ((gs @ [Running f]) ! j) = Some (v, Some x)"
      by (auto simp: failures_def)
    then have "j \<noteq> length gs" by auto
    then have "j < length gs" using j(1) by simp
    then have "result (gs ! j) = Some (v, Some x)" using j(2) by (simp add: nth_append)
    then show "x \<in> failures gs" using \<open>j < length gs\<close> unfolding failures_def by blast
  next
    assume "x \<in> failures gs"
    then obtain j v where j: "j < length gs" "result (gs ! j) = Some (v, Some x)"
      by (auto simp: failures_def)
    then have "result ((gs @ [Running f]) ! j) = Some (v, Some x)" by (simp add: nth_append)
    moreover have "j < length (gs @ [Running f])" using j(1) by simp
    ultimately show "x \<in> failures (gs @ [Running f])" unfolding failures_def by blast
  qed
qed

lemma exited_update_in:
  assumes "i < length gs" "\<not> is_Exited (gs ! i)" "is_Exited g"
  shows "exited (gs[i := g]) = add_mset g (exited gs)"
proof -
  have "mset (gs[i := g]) = add_mset g (mset gs - {#gs ! i#})"
    using assms(1) by (rule mset_update)
  then show ?thesis using assms(2,3) by (simp add: exited_def filter_diff_mset)
qed

lemma exited_update_out:
  assumes "i < length gs" "\<not> is_Exited (gs ! i)" "\<not> is_Exited g"
  shows "exited (gs[i := g]) = exited gs"
proof -
  have "mset (gs[i := g]) = add_mset g (mset gs - {#gs ! i#})"
    using assms(1) by (rule mset_update)
  then show ?thesis using assms(2,3) by (simp add: exited_def filter_diff_mset)
qed

lemma exited_append_Running [simp]: "exited (gs @ [Running f]) = exited gs"
  by (simp add: exited_def)

lemma errOnce_Do_dyn_fields [simp]:
  "cancel_dyn (errOnce_Do_dyn x g) = cancel_dyn g"
  "count_dyn (errOnce_Do_dyn x g) = count_dyn g"
  "errOnce_dyn (errOnce_Do_dyn x g) = True"
  "err_dyn (errOnce_Do_dyn x g) = (if errOnce_dyn g then err_dyn g else Some x)"
  by (simp_all add: errOnce_Do_dyn_def split: option.splits)

lemma step_dyn_Run_cases:
  obtains
    (idle) "step_dyn (Run j) s = s"
  | (poll) k where "j < length (goroutines_dyn s)" "goroutines_dyn s ! j = Running (Poll k)"
      "step_dyn (Run j) s =
         s\<lparr>goroutines_dyn := (goroutines_dyn s)[j := Running (k (ctx_dyn (group_dyn s)))]\<rparr>"
  | (ok) v where "j < length (goroutines_dyn s)" "goroutines_dyn s ! j = Running (Return v None)"
      "step_dyn (Run j) s = s\<lparr>goroutines_dyn := (goroutines_dyn s)[j := Sending v None]\<rparr>"
  | (fail) v x where "j < length (goroutines_dyn s)"
      "goroutines_dyn s ! j = Running (Return v (Some x))"
      "step_dyn (Run j) s =
         s\<lparr>group_dyn := errOnce_Do_dyn x (group_dyn s),
           goroutines_dyn := (goroutines_dyn s)[j := Sending v (Some x)]\<rparr>"
proof (cases "length (goroutines_dyn s) \<le> j")
  case True
  then have "step_dyn (Run j) s = s" by simp
  then show ?thesis by (rule idle)
next
  case False
  then have l: "j < length (goroutines_dyn s)" by simp
  show ?thesis
  proof (cases "goroutines_dyn s ! j")
    case (Running t)
    show ?thesis
    proof (cases t)
      case (Return v e)
      show ?thesis
      proof (cases e)
        case None
        have "step_dyn (Run j) s = s\<lparr>goroutines_dyn := (goroutines_dyn s)[j := Sending v None]\<rparr>"
          using False Running Return None by simp
        then show ?thesis using ok l Running Return None by blast
      next
        case (Some x)
        have "step_dyn (Run j) s =
           s\<lparr>group_dyn := errOnce_Do_dyn x (group_dyn s),
             goroutines_dyn := (goroutines_dyn s)[j := Sending v (Some x)]\<rparr>"
          using False Running Return Some by simp
        then show ?thesis using fail l Running Return Some by blast
      qed
    next
      case (Poll k)
      have "step_dyn (Run j) s =
         s\<lparr>goroutines_dyn := (goroutines_dyn s)[j := Running (k (ctx_dyn (group_dyn s)))]\<rparr>"
        using False Running Poll by simp
      then show ?thesis using poll l Running Poll by blast
    qed
  next
    case (Sending v e)
    then have "step_dyn (Run j) s = s" using False by simp
    then show ?thesis by (rule idle)
  next
    case (Exited v e)
    then have "step_dyn (Run j) s = s" using False by simp
    then show ?thesis by (rule idle)
  qed
qed

lemma inv_err_dyn_step:
  assumes a: "inv_err_dyn s"
  shows "inv_err_dyn (step_dyn ev s)"
proof (cases ev)
  case (Run j)
  have "inv_err_dyn (step_dyn (Run j) s)"
  proof (cases rule: step_dyn_Run_cases [of j s])
    case idle
    then show ?thesis using a by simp
  next
    case (poll k)
    then show ?thesis
      using a failures_update [of j "goroutines_dyn s" "Running (k (ctx_dyn (group_dyn s)))"]
      by (auto simp: inv_err_dyn_def split: option.splits)
  next
    case (ok v)
    then show ?thesis using a failures_update [of j "goroutines_dyn s" "Sending v None"]
      by (auto simp: inv_err_dyn_def split: option.splits)
  next
    case (fail v x)
    then show ?thesis using a failures_update [of j "goroutines_dyn s" "Sending v (Some x)"]
      by (auto simp: inv_err_dyn_def split: option.splits)
  qed
  then show ?thesis using Run by simp
next
  case ParentCancel
  then show ?thesis using a by (simp add: inv_err_dyn_def split: option.splits)
qed

lemma inv_res_dyn_step:
  assumes a: "inv_res fs (goroutines_dyn s)"
  shows "inv_res fs (goroutines_dyn (step_dyn ev s))"
proof (cases ev)
  case (Run j)
  have "inv_res fs (goroutines_dyn (step_dyn (Run j) s))"
  proof (cases rule: step_dyn_Run_cases [of j s])
    case idle
    then show ?thesis using a by simp
  next
    case (poll k)
    then show ?thesis
      using inv_res_update [OF a, of j "Running (k (ctx_dyn (group_dyn s)))"] returns_Poll [of k]
      by simp
  next
    case (ok v)
    then show ?thesis using inv_res_update [OF a, of j "Sending v None"] by simp
  next
    case (fail v x)
    then show ?thesis using inv_res_update [OF a, of j "Sending v (Some x)"] by simp
  qed
  then show ?thesis using Run by simp
next
  case ParentCancel
  then show ?thesis using a by simp
qed

lemma step_dyn_fixed [simp]:
  "cancel_dyn (group_dyn (step_dyn ev s)) = cancel_dyn (group_dyn s)"
  "count_dyn (group_dyn (step_dyn ev s)) = count_dyn (group_dyn s)"
  "length (goroutines_dyn (step_dyn ev s)) = length (goroutines_dyn s)"
  "exited (goroutines_dyn (step_dyn ev s)) = exited (goroutines_dyn s)"
proof -
  have "cancel_dyn (group_dyn (step_dyn ev s)) = cancel_dyn (group_dyn s) \<and>
    count_dyn (group_dyn (step_dyn ev s)) = count_dyn (group_dyn s) \<and>
    length (goroutines_dyn (step_dyn ev s)) = length (goroutines_dyn s) \<and>
    exited (goroutines_dyn (step_dyn ev s)) = exited (goroutines_dyn s)"
  proof (cases ev)
    case (Run j)
    have "cancel_dyn (group_dyn (step_dyn (Run j) s)) = cancel_dyn (group_dyn s) \<and>
      count_dyn (group_dyn (step_dyn (Run j) s)) = count_dyn (group_dyn s) \<and>
      length (goroutines_dyn (step_dyn (Run j) s)) = length (goroutines_dyn s) \<and>
      exited (goroutines_dyn (step_dyn (Run j) s)) = exited (goroutines_dyn s)"
    proof (cases rule: step_dyn_Run_cases [of j s])
      case idle
      then show ?thesis by simp
    next
      case (poll k)
      then show ?thesis by (simp add: exited_update_out)
    next
      case (ok v)
      then show ?thesis by (simp add: exited_update_out)
    next
      case (fail v x)
      then show ?thesis by (simp add: exited_update_out)
    qed
    then show ?thesis using Run by simp
  next
    case ParentCancel
    then show ?thesis by simp
  qed
  then show
    "cancel_dyn (group_dyn (step_dyn ev s)) = cancel_dyn (group_dyn s)"
    "count_dyn (group_dyn (step_dyn ev s)) = count_dyn (group_dyn s)"
    "length (goroutines_dyn (step_dyn ev s)) = length (goroutines_dyn s)"
    "exited (goroutines_dyn (step_dyn ev s)) = exited (goroutines_dyn s)"
    by simp_all
qed

lemma inv_dyn_step: "inv_dyn fs s \<Longrightarrow> inv_dyn fs (step_dyn ev s)"
  by (simp add: inv_dyn_def inv_err_dyn_step inv_res_dyn_step)

lemma inv_dyn_fold: "inv_dyn fs s \<Longrightarrow> inv_dyn fs (fold step_dyn evs s)"
  by (induction evs arbitrary: s) (simp_all add: inv_dyn_step)

lemma exited_fold [simp]:
  "exited (goroutines_dyn (fold step_dyn evs s)) = exited (goroutines_dyn s)"
  by (induction evs arbitrary: s) simp_all

lemma inv_res_append:
  assumes "inv_res fs gs"
  shows "inv_res (fs @ [f]) (gs @ [Running f])"
proof -
  have len: "length gs = length fs" using assms by (simp add: inv_res_def)
  have "\<And>i r. i < Suc (length fs) \<Longrightarrow> may_end ((gs @ [Running f]) ! i) r \<Longrightarrow>
     returns ((fs @ [f]) ! i) r"
  proof -
    fix i r assume i: "i < Suc (length fs)" and m: "may_end ((gs @ [Running f]) ! i) r"
    show "returns ((fs @ [f]) ! i) r"
    proof (cases "i < length fs")
      case True
      then show ?thesis using assms m len by (cases r) (auto simp: inv_res_def nth_append)
    next
      case False
      then have "i = length fs" using i by simp
      then show ?thesis using m len by (simp add: nth_append)
    qed
  qed
  then show ?thesis using len by (simp add: inv_res_def)
qed

lemma inv_dyn_Go: "inv_dyn fs s \<Longrightarrow> inv_dyn (fs @ [f]) (Go f s)"
  by (simp add: inv_dyn_def Go_def inv_res_append inv_err_dyn_def split: option.splits)

lemma exited_Go [simp]: "exited (goroutines_dyn (Go f s)) = exited (goroutines_dyn s)"
  by (simp add: Go_def)

lemma inv_dyn_submit: "inv_dyn fs s \<Longrightarrow> inv_dyn (fs @ map fst ps) (submit ps s)"
proof (induction ps arbitrary: fs s)
  case Nil
  then show ?case by simp
next
  case (Cons p ps)
  have "inv_dyn (fs @ [fst p]) (fold step_dyn (snd p) (Go (fst p) s))"
    by (rule inv_dyn_fold [OF inv_dyn_Go [OF Cons.prems]])
  then show ?case using Cons.IH [of "fs @ [fst p]"] by simp
qed

lemma exited_submit [simp]: "exited (goroutines_dyn (submit ps s)) = exited (goroutines_dyn s)"
  by (induction ps arbitrary: s) simp_all

lemma inv_dyn_fresh: "inv_dyn [] (fresh_dyn parent)"
  by (simp add: inv_dyn_def fresh_dyn_def NewDynamic_def WithCancel_def inv_res_def
        inv_err_dyn_def failures_def)

lemma exited_fresh [simp]: "exited (goroutines_dyn (fresh_dyn parent)) = {#}"
  by (simp add: fresh_dyn_def exited_def)

lemma recv_Some:
  assumes "recv j s = Some (v, s')"
  obtains e where "j < length (goroutines_dyn s)" "goroutines_dyn s ! j = Sending v e"
    "s' = s\<lparr>goroutines_dyn := (goroutines_dyn s)[j := Exited v e]\<rparr>"
  using assms by (auto simp: recv_def split: if_splits goroutine.splits)

lemma inv_dyn_recv:
  assumes "recv j s = Some (v, s')" "inv_dyn fs s"
  shows "inv_dyn fs s'"
proof -
  from assms(1) obtain e where e: "j < length (goroutines_dyn s)"
      "goroutines_dyn s ! j = Sending v e"
      "s' = s\<lparr>goroutines_dyn := (goroutines_dyn s)[j := Exited v e]\<rparr>"
    by (rule recv_Some)
  have "inv_res fs ((goroutines_dyn s)[j := Exited v e])"
    using inv_res_update [of fs "goroutines_dyn s" j "Exited v e"] assms(2) e
    by (simp add: inv_dyn_def)
  moreover have "failures ((goroutines_dyn s)[j := Exited v e]) = failures (goroutines_dyn s)"
    using failures_update_same [of j "goroutines_dyn s" "Exited v e"] e by simp
  ultimately show ?thesis using assms(2) e(3)
    by (simp add: inv_dyn_def inv_err_dyn_def split: option.splits)
qed

lemma take_Suc_update:
  assumes "i < length vs"
  shows "take (Suc i) (vs[i := v]) = take i vs @ [v]"
  using assms by (simp add: take_Suc_conv_app_nth)

lemma loop_inv_recv:
  assumes "recv j s = Some (v, s')" "loop_inv i vs s" "i < length vs"
  shows "loop_inv (Suc i) (vs[i := v]) s'"
proof -
  from assms(1) obtain e where e: "j < length (goroutines_dyn s)"
      "goroutines_dyn s ! j = Sending v e"
      "s' = s\<lparr>goroutines_dyn := (goroutines_dyn s)[j := Exited v e]\<rparr>"
    by (rule recv_Some)
  have ex: "exited (goroutines_dyn s') = add_mset (Exited v e) (exited (goroutines_dyn s))"
    using exited_update_in [of j "goroutines_dyn s" "Exited v e"] e by simp
  show ?thesis
    using assms(2,3) unfolding loop_inv_def ex by (simp add: take_Suc_update)
qed

lemma loop_inv_step: "loop_inv i vs s \<Longrightarrow> loop_inv i vs (step_dyn ev s)"
  by (simp add: loop_inv_def)

lemma Wait_loop_inv:
  "Wait_loop evs i vs s = Some (vs', s') \<Longrightarrow> inv_dyn fs s \<Longrightarrow> loop_inv i vs s \<Longrightarrow>
   inv_dyn fs s' \<and> loop_inv (length vs) vs' s' \<and> length vs' = length vs"
proof (induction evs arbitrary: i vs s)
  case Nil
  then show ?case by (auto simp: loop_inv_def split: if_splits)
next
  case (Cons ev evs)
  show ?case
  proof (cases "i < length vs")
    case False
    then have "vs' = vs" "s' = s" "i = length vs"
      using Cons.prems by (auto simp: loop_inv_def)
    then show ?thesis using Cons.prems(2,3) by simp
  next
    case True
    show ?thesis
    proof (cases ev)
      case (Sched a)
      then have "Wait_loop evs i vs (step_dyn a s) = Some (vs', s')"
        using Cons.prems(1) True by simp
      then show ?thesis
        by (rule Cons.IH [OF _ inv_dyn_step [OF Cons.prems(2)] loop_inv_step [OF Cons.prems(3)]])
    next
      case (Recv j)
      show ?thesis
      proof (cases "recv j s")
        case None
        then have "Wait_loop evs i vs s = Some (vs', s')"
          using Cons.prems(1) True Recv by simp
        then show ?thesis by (rule Cons.IH [OF _ Cons.prems(2,3)])
      next
        case (Some r)
        obtain v s1 where r: "recv j s = Some (v, s1)" using Some by (cases r) simp
        then have "Wait_loop evs (Suc i) (vs[i := v]) s1 = Some (vs', s')"
          using Cons.prems(1) True Recv by simp
        then have "inv_dyn fs s' \<and> loop_inv (length (vs[i := v])) vs' s' \<and>
            length vs' = length (vs[i := v])"
          by (rule Cons.IH [OF _ inv_dyn_recv [OF r Cons.prems(2)]
                loop_inv_recv [OF r Cons.prems(3) True]])
        then show ?thesis by simp
      qed
    qed
  qed
qed

lemma exited_all:
  assumes "size (exited gs) = length gs"
  shows "exited gs = mset gs" and "\<forall>j<length gs. \<exists>v e. gs ! j = Exited v e"
proof -
  have len: "length (filter is_Exited gs) = length gs"
    using assms by (simp add: exited_def flip: mset_filter)
  have all: "\<forall>g\<in>set gs. is_Exited g"
  proof (rule ccontr)
    assume "\<not> (\<forall>g\<in>set gs. is_Exited g)"
    then obtain g where "g \<in> set gs" "\<not> is_Exited g" by blast
    then have "length (filter is_Exited gs) < length gs" by (rule length_filter_less)
    then show False using len by simp
  qed
  then show "exited gs = mset gs" by (simp add: exited_def flip: mset_filter)
  show "\<forall>j<length gs. \<exists>v e. gs ! j = Exited v e"
  proof (intro allI impI)
    fix j assume "j < length gs"
    then have "is_Exited (gs ! j)" using all by simp
    then show "\<exists>v e. gs ! j = Exited v e" by (cases "gs ! j") auto
  qed
qed

lemma Wait_dyn_Returned:
  "Wait_dyn evs s = Returned (vs, e, s') \<longleftrightarrow>
     (\<exists>s1 cf. Wait_loop evs 0 (replicate (unat (count_dyn (group_dyn s))) 0) s = Some (vs, s1) \<and>
        cancel_dyn (group_dyn s1) = Some cf \<and> e = err_dyn (group_dyn s1) \<and>
        s' = s1\<lparr>group_dyn := (group_dyn s1)\<lparr>count_dyn := 0, ctx_dyn := cf (ctx_dyn (group_dyn s1))\<rparr>\<rparr>)"
  by (auto simp: Wait_dyn_def split: option.splits)

lemma Wait_dyn_post:
  assumes ret: "Wait_dyn evs (submit ps (fresh_dyn parent)) = Returned (vs, e, s')"
  shows "length vs = unat (of_nat (length ps) :: 64 word)"
    and "length (goroutines_dyn s') = length ps"
    and "inv_res (map fst ps) (goroutines_dyn s')"
    and "case e of None \<Rightarrow> failures (goroutines_dyn s') = {}
         | Some x \<Rightarrow> x \<in> failures (goroutines_dyn s')"
    and "length vs = size (exited (goroutines_dyn s'))"
    and "mset vs = image_mset value_of (exited (goroutines_dyn s'))"
    and "Done (ctx_dyn (group_dyn s'))"
proof -
  define s0 where "s0 = submit ps (fresh_dyn parent)"
  have i0: "inv_dyn (map fst ps) s0"
    using inv_dyn_submit [OF inv_dyn_fresh, of ps parent] by (simp add: s0_def)
  have len0: "length (goroutines_dyn s0) = length ps"
    using i0 by (simp add: inv_dyn_def inv_res_def)
  have c0: "count_dyn (group_dyn s0) = of_nat (length ps)"
    using i0 len0 by (simp add: inv_dyn_def)
  have l0: "loop_inv 0 (replicate (unat (count_dyn (group_dyn s0))) 0) s0"
    by (simp add: loop_inv_def s0_def)
  from ret obtain s1 cf where s1:
    "Wait_loop evs 0 (replicate (unat (count_dyn (group_dyn s0))) 0) s0 = Some (vs, s1)"
    "cancel_dyn (group_dyn s1) = Some cf" "e = err_dyn (group_dyn s1)"
    "s' = s1\<lparr>group_dyn := (group_dyn s1)\<lparr>count_dyn := 0, ctx_dyn := cf (ctx_dyn (group_dyn s1))\<rparr>\<rparr>"
    unfolding Wait_dyn_Returned s0_def [symmetric] by blast
  have "inv_dyn (map fst ps) s1 \<and>
    loop_inv (length (replicate (unat (count_dyn (group_dyn s0))) (0::'a))) vs s1 \<and>
    length vs = length (replicate (unat (count_dyn (group_dyn s0))) (0::'a))"
    by (rule Wait_loop_inv [OF s1(1) i0 l0])
  then have post: "inv_dyn (map fst ps) s1" "loop_inv (length vs) vs s1"
    "length vs = unat (count_dyn (group_dyn s0))"
    by simp_all
  have gs: "goroutines_dyn s' = goroutines_dyn s1" using s1(4) by simp
  show "length vs = unat (of_nat (length ps) :: 64 word)" using post(3) c0 by simp
  show "inv_res (map fst ps) (goroutines_dyn s')" using post(1) gs by (simp add: inv_dyn_def)
  then show "length (goroutines_dyn s') = length ps" by (simp add: inv_res_def)
  show "case e of None \<Rightarrow> failures (goroutines_dyn s') = {}
         | Some x \<Rightarrow> x \<in> failures (goroutines_dyn s')"
    using post(1) s1(3) gs by (auto simp: inv_dyn_def inv_err_dyn_def split: option.splits)
  show "length vs = size (exited (goroutines_dyn s'))"
    using post(2) gs by (simp add: loop_inv_def)
  show "mset vs = image_mset value_of (exited (goroutines_dyn s'))"
    using post(2) gs by (simp add: loop_inv_def)
  have "cf = cancelCtx" using post(1) s1(2) by (simp add: inv_dyn_def)
  then show "Done (ctx_dyn (group_dyn s'))" using s1(4) by (simp add: cancelCtx_def)
qed

lemma not_all_exited:
  assumes "size (exited gs) < length gs"
  shows "\<exists>j<length gs. \<not> is_Exited (gs ! j)"
proof (rule ccontr)
  assume "\<not> (\<exists>j<length gs. \<not> is_Exited (gs ! j))"
  then have "\<forall>g\<in>set gs. is_Exited g" by (auto simp: in_set_conv_nth)
  then have "filter is_Exited gs = gs" by simp
  then have "size (exited gs) = length gs" by (simp add: exited_def flip: mset_filter)
  then show False using assms by simp
qed

lemma step_dyn_todo:
  assumes "j < length (goroutines_dyn s)" "goroutines_dyn s ! j = Running t"
  shows "todo (goroutines_dyn (step_dyn (Run j) s)) < todo (goroutines_dyn s)"
proof (cases t)
  case (Return v e)
  then show ?thesis using assms todo_update [of j "goroutines_dyn s" "Sending v e"]
    by (cases e) simp_all
next
  case (Poll k)
  then show ?thesis
    using assms todo_update [of j "goroutines_dyn s" "Running (k (ctx_dyn (group_dyn s)))"]
      height_Poll [of k]
    by simp
qed

lemma recv_Sending:
  assumes "j < length (goroutines_dyn s)" "goroutines_dyn s ! j = Sending v e"
  shows "recv j s = Some (v, s\<lparr>goroutines_dyn := (goroutines_dyn s)[j := Exited v e]\<rparr>)"
  using assms by (simp add: recv_def)

lemma Wait_loop_can_finish:
  "loop_inv i vs s \<Longrightarrow> length vs \<le> length (goroutines_dyn s) \<Longrightarrow>
   \<exists>evs r. Wait_loop evs i vs s = Some r"
proof (induction "todo (goroutines_dyn s)" arbitrary: i vs s rule: less_induct)
  case less
  show ?case
  proof (cases "i < length vs")
    case False
    then have "Wait_loop [] i vs s = Some (vs, s)" by simp
    then show ?thesis by blast
  next
    case True
    then have "size (exited (goroutines_dyn s)) < length (goroutines_dyn s)"
      using less.prems by (simp add: loop_inv_def)
    then obtain j where j: "j < length (goroutines_dyn s)" "\<not> is_Exited (goroutines_dyn s ! j)"
      using not_all_exited by blast
    show ?thesis
    proof (cases "goroutines_dyn s ! j")
      case (Running t)
      define s1 where "s1 = step_dyn (Run j) s"
      have "todo (goroutines_dyn s1) < todo (goroutines_dyn s)"
        unfolding s1_def by (rule step_dyn_todo [OF j(1) Running])
      moreover have "loop_inv i vs s1"
        unfolding s1_def by (rule loop_inv_step [OF less.prems(1)])
      moreover have "length vs \<le> length (goroutines_dyn s1)"
        unfolding s1_def using less.prems(2) by (simp del: step_dyn.simps)
      ultimately obtain evs r where "Wait_loop evs i vs s1 = Some r"
        using less.hyps [of s1 i vs] by auto
      then have "Wait_loop (Sched (Run j) # evs) i vs s = Some r"
        using True by (simp add: s1_def del: step_dyn.simps)
      then show ?thesis by blast
    next
      case (Sending v e)
      define s1 where "s1 = s\<lparr>goroutines_dyn := (goroutines_dyn s)[j := Exited v e]\<rparr>"
      have r: "recv j s = Some (v, s1)" unfolding s1_def by (rule recv_Sending [OF j(1) Sending])
      have "todo (goroutines_dyn s1) < todo (goroutines_dyn s)"
        using todo_update [of j "goroutines_dyn s" "Exited v e"] j(1) Sending by (simp add: s1_def)
      moreover have "loop_inv (Suc i) (vs[i := v]) s1"
        by (rule loop_inv_recv [OF r less.prems(1) True])
      moreover have "length (vs[i := v]) \<le> length (goroutines_dyn s1)"
        using less.prems(2) by (simp add: s1_def)
      ultimately obtain evs r' where "Wait_loop evs (Suc i) (vs[i := v]) s1 = Some r'"
        using less.hyps [of s1 "Suc i" "vs[i := v]"] by auto
      then have "Wait_loop (Recv j # evs) i vs s = Some r'" using True r by simp
      then show ?thesis by blast
    next
      case (Exited v e)
      then show ?thesis using j(2) by simp
    qed
  qed
qed

lemma Wait_dyn_returns: "\<exists>evs r. Wait_dyn evs (submit ps (fresh_dyn parent)) = Returned r"
proof -
  define s0 :: "('a::zero, 'b) state_dyn" where "s0 = submit ps (fresh_dyn parent)"
  define vs0 :: "'a list" where "vs0 = replicate (unat (count_dyn (group_dyn s0))) 0"
  have i0: "inv_dyn (map fst ps) s0"
    using inv_dyn_submit [OF inv_dyn_fresh, of ps parent] by (simp add: s0_def)
  have len0: "length (goroutines_dyn s0) = length ps"
    using i0 by (simp add: inv_dyn_def inv_res_def)
  have "count_dyn (group_dyn s0) = of_nat (length ps)"
    using i0 len0 by (simp add: inv_dyn_def)
  then have "length vs0 \<le> length (goroutines_dyn s0)"
    using len0 by (simp add: vs0_def unat_of_nat)
  moreover have l0: "loop_inv 0 vs0 s0" by (simp add: loop_inv_def s0_def)
  ultimately obtain evs r where "Wait_loop evs 0 vs0 s0 = Some r"
    using Wait_loop_can_finish by blast
  then obtain vs s1 where w: "Wait_loop evs 0 vs0 s0 = Some (vs, s1)" by (cases r) auto
  have "inv_dyn (map fst ps) s1" using Wait_loop_inv [OF w i0 l0] by simp
  then have "cancel_dyn (group_dyn s1) = Some cancelCtx" by (simp add: inv_dyn_def)
  then have "\<exists>r. Wait_dyn evs s0 = Returned r"
    using w by (simp add: Wait_dyn_def vs0_def)
  then show ?thesis unfolding s0_def by blast
qed

subsection \<open>The two fixed groups under the same schedule\<close>

lemma sim_Run:
  assumes a: "sim w w0"
  shows "sim (step (Run i) w) (step_000 (Run i) w0)"
proof (cases "panicked w \<noteq> None \<or> length (goroutines w) \<le> i")
  case True
  then show ?thesis using a by (auto simp: sim_def)
next
  case False
  then have f: "panicked w = None" "i < length (goroutines w)"
    "panicked_000 w0 = None" "i < length (goroutines_000 w0)"
    using a by (auto simp: sim_def)
  show ?thesis
  proof (cases "goroutines w ! i")
    case (Running t)
    then have r0: "goroutines_000 w0 ! i = Running t" using a by (simp add: sim_def)
    show ?thesis
    proof (cases t)
      case (Return v e)
      show ?thesis
      proof (cases e)
        case None
        then show ?thesis using a f Running r0 Return
          by (simp add: sim_def returned_def returned_000_def wg_Done_def wg_Done_000_def)
      next
        case (Some x)
        then show ?thesis using a f Running r0 Return
          by (simp add: sim_def returned_def returned_000_def wg_Done_def wg_Done_000_def
              errOnce_Do_def errOnce_Do_000_def Let_def)
      qed
    next
      case (Poll k)
      then show ?thesis using a f Running r0 by (simp add: sim_def)
    qed
  next
    case (Sending v e)
    then have "goroutines_000 w0 ! i = Sending v e" using a by (simp add: sim_def)
    then show ?thesis using a f Sending by simp
  next
    case (Exited v e)
    then have "goroutines_000 w0 ! i = Exited v e" using a by (simp add: sim_def)
    then show ?thesis using a f Exited by simp
  qed
qed

lemma sim_step: "sim w w0 \<Longrightarrow> sim (step ev w) (step_000 ev w0)"
proof (cases ev)
  case (Run i)
  assume "sim w w0"
  then show ?thesis unfolding Run by (rule sim_Run)
next
  case ParentCancel
  assume "sim w w0"
  then show ?thesis using ParentCancel by (simp add: sim_def)
qed

lemma sim_fold: "sim w w0 \<Longrightarrow> sim (fold step sched w) (fold step_000 sched w0)"
  by (induction sched arbitrary: w w0) (simp_all add: sim_step)

lemma sim_start:
  "New parent fs = Inr (g, c) \<Longrightarrow> New_000 fs = Inr g0 \<Longrightarrow> sim (start g) (start_000 parent g0)"
  by (simp add: New_Inr New_000_Inr sim_def start_def start_000_eq)

subsection \<open>From the invariants to the results of \<open>Wait\<close>\<close>

lemma failures_iff:
  "x \<in> failures gs \<longleftrightarrow> (\<exists>i<length gs. \<exists>v. result (gs ! i) = Some (v, Some x))"
  by (simp add: failures_def)





lemma no_failures_iff:
  assumes "\<forall>i<length gs. \<exists>v e'. gs ! i = Exited v e'"
  shows "failures gs = {} \<longleftrightarrow> (\<forall>i<length gs. \<exists>v. gs ! i = Exited v None)"
proof
  assume f: "failures gs = {}"
  show "\<forall>i<length gs. \<exists>v. gs ! i = Exited v None"
  proof (intro allI impI)
    fix i assume i: "i < length gs"
    then obtain v e' where ex: "gs ! i = Exited v e'" using assms by blast
    have "e' = None"
    proof (cases e')
      case (Some x)
      then have "x \<in> failures gs" using i ex unfolding failures_iff by auto
      then show ?thesis using f by simp
    qed simp
    then show "\<exists>v. gs ! i = Exited v None" using ex by simp
  qed
next
  assume a: "\<forall>i<length gs. \<exists>v. gs ! i = Exited v None"
  show "failures gs = {}"
  proof (rule ccontr)
    assume "failures gs \<noteq> {}"
    then obtain x where "x \<in> failures gs" by blast
    then obtain i v where i: "i < length gs" "result (gs ! i) = Some (v, Some x)"
      unfolding failures_iff by blast
    then show False using a by auto
  qed
qed

lemma all_succeed:
  assumes len: "length gs = length fs"
    and ex: "\<forall>i<length fs. \<exists>v e'. gs ! i = Exited v e' \<and> returns (fs ! i) (v, e') \<and> P i v e'"
    and er: "case e of None \<Rightarrow> failures gs = {} | Some x \<Rightarrow> x \<in> failures gs"
  shows "e = None \<longleftrightarrow> (\<forall>i<length fs. \<exists>v. gs ! i = Exited v None)"
    and "\<forall>i<length fs. \<forall>v x. \<not> returns (fs ! i) (v, Some x) \<Longrightarrow>
         \<forall>i<length fs. \<exists>v. gs ! i = Exited v None"
proof -
  have all: "\<forall>i<length gs. \<exists>v e'. gs ! i = Exited v e'" using ex len by auto
  have "e = None \<longleftrightarrow> failures gs = {}" using er by (cases e) auto
  then show "e = None \<longleftrightarrow> (\<forall>i<length fs. \<exists>v. gs ! i = Exited v None)"
    using no_failures_iff [OF all] len by simp
  show "\<forall>i<length fs. \<exists>v. gs ! i = Exited v None"
    if ok: "\<forall>i<length fs. \<forall>v x. \<not> returns (fs ! i) (v, Some x)"
  proof (intro allI impI)
    fix i assume i: "i < length fs"
    then obtain v e' where g: "gs ! i = Exited v e'" "returns (fs ! i) (v, e')" using ex by blast
    then have "e' = None" using ok i by (cases e') auto
    then show "\<exists>v. gs ! i = Exited v None" using g by simp
  qed
qed

lemma Wait_dyn_all:
  assumes b: "length ps < 2 ^ 64"
    and ret: "Wait_dyn evs (submit ps (fresh_dyn parent)) = Returned (vs, e, s')"
  shows "length vs = length ps"
    and "mset vs = mset (map value_of (goroutines_dyn s'))"
    and "\<forall>j<length ps. \<exists>v e'. goroutines_dyn s' ! j = Exited v e' \<and> returns (fst (ps ! j)) (v, e')"
proof -
  have u: "unat (of_nat (length ps) :: 64 word) = length ps"
    using b by (simp add: unat_of_nat)
  show len: "length vs = length ps" using Wait_dyn_post(1) [OF ret] u by simp
  have gl: "length (goroutines_dyn s') = length ps" by (rule Wait_dyn_post(2) [OF ret])
  have "size (exited (goroutines_dyn s')) = length (goroutines_dyn s')"
    using Wait_dyn_post(5) [OF ret] len gl by simp
  then have all: "exited (goroutines_dyn s') = mset (goroutines_dyn s')"
      "\<forall>j<length (goroutines_dyn s'). \<exists>v e. goroutines_dyn s' ! j = Exited v e"
    by (rule exited_all)+
  show "mset vs = mset (map value_of (goroutines_dyn s'))"
    using Wait_dyn_post(6) [OF ret] all(1) by simp
  have res: "inv_res (map fst ps) (goroutines_dyn s')" by (rule Wait_dyn_post(3) [OF ret])
  show "\<forall>j<length ps. \<exists>v e'. goroutines_dyn s' ! j = Exited v e' \<and> returns (fst (ps ! j)) (v, e')"
  proof (intro allI impI)
    fix j assume j: "j < length ps"
    then obtain v e' where ex: "goroutines_dyn s' ! j = Exited v e'" using all(2) gl by auto
    then have "may_end (goroutines_dyn s' ! j) (v, e')" by simp
    then have "returns (map fst ps ! j) (v, e')" using res j by (simp add: inv_res_def)
    then show "\<exists>v e'. goroutines_dyn s' ! j = Exited v e' \<and> returns (fst (ps ! j)) (v, e')"
      using ex j by simp
  qed
qed



lemma sim_Wait:
  assumes n: "New parent fs = Inr (g, c)" and n0: "New_000 fs = Inr g0"
  shows "(\<exists>vs e w. Wait sched g = Returned (vs, e, w)) \<longleftrightarrow>
         (\<exists>vs e w. Wait_000 parent sched g0 = Returned (vs, e, w))"
    and "Wait sched g = Returned (vs, e, w) \<Longrightarrow>
         Wait_000 parent sched g0 = Returned (vs0, e0, w0) \<Longrightarrow>
         e0 = e \<and> goroutines_000 w0 = goroutines w"
proof -
  have s: "sim (fold step sched (start g)) (fold step_000 sched (start_000 parent g0))"
    by (rule sim_fold [OF sim_start [OF n n0]])
  show "(\<exists>vs e w. Wait sched g = Returned (vs, e, w)) \<longleftrightarrow>
         (\<exists>vs e w. Wait_000 parent sched g0 = Returned (vs, e, w))"
    using s unfolding Wait_Returned Wait_000_Returned by (simp add: sim_def)
  show "Wait sched g = Returned (vs, e, w) \<Longrightarrow>
         Wait_000 parent sched g0 = Returned (vs0, e0, w0) \<Longrightarrow>
         e0 = e \<and> goroutines_000 w0 = goroutines w"
    using s unfolding Wait_Returned Wait_000_Returned by (auto simp: sim_def)
qed

section \<open>The properties of the specification\<close>

text \<open>
  In the theorems below, a run of \<open>Wait\<close> is given by its schedule. The state that
  \<open>Wait\<close> leaves behind records, for each goroutine, what its task returned in that run:
  \<open>goroutines w ! i = Exited v e\<close> says that task \<open>i\<close> returned the value \<open>v\<close> and the
  error \<open>e\<close>, and \<open>returns (fs ! i) (v, e)\<close> that this is a result the function \<open>fs ! i\<close>
  can produce. A task \<open>Return v e\<close> returns \<open>(v, e)\<close> whatever happens around it.
\<close>



text \<open>
  C2. For every non-empty list of task functions where every task returns a nil error, the
  fixed group's \<open>Wait\<close> returns a nil error and a values slice of the same length as the
  task list in which the element at index \<open>i\<close> equals the value produced by task \<open>i\<close>.
  Both versions of the fixed group: some schedule lets \<open>Wait\<close> return. Whenever it has
  returned, the slice is as long as the task list, every goroutine has exited with a result
  that its task can return, the slot of a goroutine that returned a nil error holds the
  value it returned, and the error is nil exactly if every goroutine returned a nil error.
  For tasks that cannot return an error, whatever they see of the context, the error is
  nil and slot \<open>i\<close> holds the value that task \<open>i\<close> returned in this run. For tasks that
  return the values \<open>xs\<close> at once, the slice is \<open>xs\<close>.
\<close>

theorem C2_all_tasks_succeed:
  assumes "New parent fs = Inr (g, c)" and "New_000 fs = Inr g0"
  shows
    "(\<exists>sched r. Wait sched g = Returned r) \<and>
     (Wait sched g = Returned (vs, e, w) \<longrightarrow>
        length vs = length fs \<and>
        (\<forall>i<length fs. \<exists>v e'. goroutines w ! i = Exited v e' \<and> returns (fs ! i) (v, e') \<and>
           (e' = None \<longrightarrow> vs ! i = v)) \<and>
        (e = None \<longleftrightarrow> (\<forall>i<length fs. \<exists>v. goroutines w ! i = Exited v None))) \<and>
     (Wait sched g = Returned (vs, e, w) \<and> (\<forall>i<length fs. \<forall>v x. \<not> returns (fs ! i) (v, Some x)) \<longrightarrow>
        e = None \<and>
        (\<forall>i<length fs. goroutines w ! i = Exited (vs ! i) None \<and> returns (fs ! i) (vs ! i, None))) \<and>
     (Wait sched g = Returned (vs, e, w) \<and> fs = map (\<lambda>v. Return v None) xs \<longrightarrow>
        e = None \<and> vs = xs) \<and>
     (\<exists>sched r. Wait_000 parent0 sched g0 = Returned r) \<and>
     (Wait_000 parent0 sched0 g0 = Returned (vs0, e0, w0) \<longrightarrow>
        length vs0 = length fs \<and>
        (\<forall>i<length fs. \<exists>v e'. goroutines_000 w0 ! i = Exited v e' \<and> returns (fs ! i) (v, e') \<and>
           (e' = None \<longrightarrow> vs0 ! i = v)) \<and>
        (e0 = None \<longleftrightarrow> (\<forall>i<length fs. \<exists>v. goroutines_000 w0 ! i = Exited v None))) \<and>
     (Wait_000 parent0 sched0 g0 = Returned (vs0, e0, w0) \<and>
        (\<forall>i<length fs. \<forall>v x. \<not> returns (fs ! i) (v, Some x)) \<longrightarrow>
        e0 = None \<and>
        (\<forall>i<length fs. goroutines_000 w0 ! i = Exited (vs0 ! i) None \<and>
                        returns (fs ! i) (vs0 ! i, None))) \<and>
     (Wait_000 parent0 sched0 g0 = Returned (vs0, e0, w0) \<and> fs = map (\<lambda>v. Return v None) xs \<longrightarrow>
        e0 = None \<and> vs0 = xs)"
proof -
  have ex: "\<exists>sched r. Wait sched g = Returned r"
    using Wait_returns [OF assms(1), of "[]"] by simp
  have ex0: "\<exists>sched r. Wait_000 parent0 sched g0 = Returned r"
    using Wait_000_returns [of g0 parent0 "[]"] assms(2) by (simp add: New_000_Inr)
  have run: "length vs = length fs \<and>
        (\<forall>i<length fs. \<exists>v e'. goroutines w ! i = Exited v e' \<and> returns (fs ! i) (v, e') \<and>
           (e' = None \<longrightarrow> vs ! i = v)) \<and>
        (e = None \<longleftrightarrow> (\<forall>i<length fs. \<exists>v. goroutines w ! i = Exited v None))"
    if r: "Wait sched g = Returned (vs, e, w)"
  proof -
    note p = Wait_post [OF assms(1) r]
    have "\<forall>i<length fs. \<exists>v e'. goroutines w ! i = Exited v e' \<and> returns (fs ! i) (v, e') \<and>
           (e' = None \<longrightarrow> vs ! i = v)"
    proof (intro allI impI)
      fix i assume "i < length fs"
      then obtain v e' where "goroutines w ! i = Exited v e'" "returns (fs ! i) (v, e')"
          "vs ! i = (case e' of None \<Rightarrow> v | Some x \<Rightarrow> 0)"
        using p(3) by blast
      then show "\<exists>v e'. goroutines w ! i = Exited v e' \<and> returns (fs ! i) (v, e') \<and>
           (e' = None \<longrightarrow> vs ! i = v)"
        by auto
    qed
    then show ?thesis using p(1) all_succeed(1) [OF p(2) p(3) p(4)] by simp
  qed
  have gen: "e = None \<and>
        (\<forall>i<length fs. goroutines w ! i = Exited (vs ! i) None \<and> returns (fs ! i) (vs ! i, None))"
    if r: "Wait sched g = Returned (vs, e, w)"
      and ok: "\<forall>i<length fs. \<forall>v x. \<not> returns (fs ! i) (v, Some x)"
  proof -
    note p = Wait_post [OF assms(1) r]
    have a: "\<forall>i<length fs. \<exists>v. goroutines w ! i = Exited v None"
      by (rule all_succeed(2) [OF p(2) p(3) p(4) ok])
    have "\<forall>i<length fs. goroutines w ! i = Exited (vs ! i) None \<and>
        returns (fs ! i) (vs ! i, None)"
    proof (intro allI impI)
      fix i assume i: "i < length fs"
      then obtain v e' where "goroutines w ! i = Exited v e'" "returns (fs ! i) (v, e')"
          "vs ! i = (case e' of None \<Rightarrow> v | Some x \<Rightarrow> 0)"
        using p(3) by blast
      moreover have "e' = None" using a i calculation(1) by auto
      ultimately show "goroutines w ! i = Exited (vs ! i) None \<and> returns (fs ! i) (vs ! i, None)"
        by simp
    qed
    then show ?thesis using a run [OF r] by simp
  qed
  have det: "e = None \<and> vs = xs"
    if r: "Wait sched g = Returned (vs, e, w)" and f: "fs = map (\<lambda>v. Return v None) xs"
  proof -
    have ok: "\<forall>i<length fs. \<forall>v x. \<not> returns (fs ! i) (v, Some x)" using f by simp
    have "\<forall>i<length fs. returns (fs ! i) (vs ! i, None)" using gen [OF r ok] by blast
    then have "\<forall>i<length xs. vs ! i = xs ! i" using f by simp
    moreover have "length vs = length xs" using run [OF r] f by simp
    ultimately have "vs = xs" by (simp add: list_eq_iff_nth_eq)
    then show ?thesis using gen [OF r ok] by simp
  qed
  have run0: "length vs0 = length fs \<and>
        (\<forall>i<length fs. \<exists>v e'. goroutines_000 w0 ! i = Exited v e' \<and> returns (fs ! i) (v, e') \<and>
           (e' = None \<longrightarrow> vs0 ! i = v)) \<and>
        (e0 = None \<longleftrightarrow> (\<forall>i<length fs. \<exists>v. goroutines_000 w0 ! i = Exited v None))"
    if r: "Wait_000 parent0 sched0 g0 = Returned (vs0, e0, w0)"
  proof -
    note p = Wait_000_post [OF assms(2) r]
    have "\<forall>i<length fs. \<exists>v e'. goroutines_000 w0 ! i = Exited v e' \<and> returns (fs ! i) (v, e') \<and>
           (e' = None \<longrightarrow> vs0 ! i = v)"
    proof (intro allI impI)
      fix i assume "i < length fs"
      then obtain v e' where "goroutines_000 w0 ! i = Exited v e'" "returns (fs ! i) (v, e')"
          "vs0 ! i = v"
        using p(3) by blast
      then show "\<exists>v e'. goroutines_000 w0 ! i = Exited v e' \<and> returns (fs ! i) (v, e') \<and>
           (e' = None \<longrightarrow> vs0 ! i = v)"
        by auto
    qed
    then show ?thesis using p(1) all_succeed(1) [OF p(2) p(3) p(4)] by simp
  qed
  have gen0: "e0 = None \<and>
        (\<forall>i<length fs. goroutines_000 w0 ! i = Exited (vs0 ! i) None \<and>
                        returns (fs ! i) (vs0 ! i, None))"
    if r: "Wait_000 parent0 sched0 g0 = Returned (vs0, e0, w0)"
      and ok: "\<forall>i<length fs. \<forall>v x. \<not> returns (fs ! i) (v, Some x)"
  proof -
    note p = Wait_000_post [OF assms(2) r]
    have a: "\<forall>i<length fs. \<exists>v. goroutines_000 w0 ! i = Exited v None"
      by (rule all_succeed(2) [OF p(2) p(3) p(4) ok])
    have "\<forall>i<length fs. goroutines_000 w0 ! i = Exited (vs0 ! i) None \<and>
        returns (fs ! i) (vs0 ! i, None)"
    proof (intro allI impI)
      fix i assume i: "i < length fs"
      then obtain v e' where "goroutines_000 w0 ! i = Exited v e'" "returns (fs ! i) (v, e')"
          "vs0 ! i = v"
        using p(3) by blast
      moreover have "e' = None" using a i calculation(1) by auto
      ultimately show "goroutines_000 w0 ! i = Exited (vs0 ! i) None \<and>
          returns (fs ! i) (vs0 ! i, None)"
        by simp
    qed
    then show ?thesis using a run0 [OF r] by simp
  qed
  have det0: "e0 = None \<and> vs0 = xs"
    if r: "Wait_000 parent0 sched0 g0 = Returned (vs0, e0, w0)"
      and f: "fs = map (\<lambda>v. Return v None) xs"
  proof -
    have ok: "\<forall>i<length fs. \<forall>v x. \<not> returns (fs ! i) (v, Some x)" using f by simp
    have "\<forall>i<length fs. returns (fs ! i) (vs0 ! i, None)" using gen0 [OF r ok] by blast
    then have "\<forall>i<length xs. vs0 ! i = xs ! i" using f by simp
    moreover have "length vs0 = length xs" using run0 [OF r] f by simp
    ultimately have "vs0 = xs" by (simp add: list_eq_iff_nth_eq)
    then show ?thesis using gen0 [OF r ok] by simp
  qed
  have c2: "Wait sched g = Returned (vs, e, w) \<longrightarrow>
        length vs = length fs \<and>
        (\<forall>i<length fs. \<exists>v e'. goroutines w ! i = Exited v e' \<and> returns (fs ! i) (v, e') \<and>
           (e' = None \<longrightarrow> vs ! i = v)) \<and>
        (e = None \<longleftrightarrow> (\<forall>i<length fs. \<exists>v. goroutines w ! i = Exited v None))"
    using run by (intro impI)
  have c3: "Wait sched g = Returned (vs, e, w) \<and>
        (\<forall>i<length fs. \<forall>v x. \<not> returns (fs ! i) (v, Some x)) \<longrightarrow>
        e = None \<and>
        (\<forall>i<length fs. goroutines w ! i = Exited (vs ! i) None \<and> returns (fs ! i) (vs ! i, None))"
    using gen by (intro impI) (elim conjE)
  have c4: "Wait sched g = Returned (vs, e, w) \<and> fs = map (\<lambda>v. Return v None) xs \<longrightarrow>
        e = None \<and> vs = xs"
    using det by (intro impI) (elim conjE)
  have c6: "Wait_000 parent0 sched0 g0 = Returned (vs0, e0, w0) \<longrightarrow>
        length vs0 = length fs \<and>
        (\<forall>i<length fs. \<exists>v e'. goroutines_000 w0 ! i = Exited v e' \<and> returns (fs ! i) (v, e') \<and>
           (e' = None \<longrightarrow> vs0 ! i = v)) \<and>
        (e0 = None \<longleftrightarrow> (\<forall>i<length fs. \<exists>v. goroutines_000 w0 ! i = Exited v None))"
    using run0 by (intro impI)
  have c7: "Wait_000 parent0 sched0 g0 = Returned (vs0, e0, w0) \<and>
        (\<forall>i<length fs. \<forall>v x. \<not> returns (fs ! i) (v, Some x)) \<longrightarrow>
        e0 = None \<and>
        (\<forall>i<length fs. goroutines_000 w0 ! i = Exited (vs0 ! i) None \<and>
                        returns (fs ! i) (vs0 ! i, None))"
    using gen0 by (intro impI) (elim conjE)
  have c8: "Wait_000 parent0 sched0 g0 = Returned (vs0, e0, w0) \<and>
        fs = map (\<lambda>v. Return v None) xs \<longrightarrow> e0 = None \<and> vs0 = xs"
    using det0 by (intro impI) (elim conjE)
  show ?thesis by (intro conjI ex c2 c3 c4 ex0 c6 c7 c8)
qed

theorem C2_witness:
  "\<exists>g c g0 w w0.
     New \<lparr>Done = False\<rparr>
       [Poll (\<lambda>c. if Done c then Return (7::nat) (None :: string option) else Return 5 None),
        Return 2 None, Poll (\<lambda>c. Return 3 None)] = Inr (g, c) \<and>
     New_000
       [Poll (\<lambda>c. if Done c then Return (7::nat) (None :: string option) else Return 5 None),
        Return 2 None, Poll (\<lambda>c. Return 3 None)] = Inr g0 \<and>
     Wait [Run 2, Run 0, Run 1, Run 0, Run 2] g = Returned ([5, 2, 3], None, w) \<and>
     goroutines w = [Exited 5 None, Exited 2 None, Exited 3 None] \<and>
     Wait_000 \<lparr>Done = False\<rparr> [Run 1, Run 2, Run 0, Run 2, Run 0] g0 =
       Returned ([5, 2, 3], None, w0) \<and>
     goroutines_000 w0 = [Exited 5 None, Exited 2 None, Exited 3 None]"
proof -
  let ?fs = "[Poll (\<lambda>c. if Done c then Return (7::nat) (None :: string option) else Return 5 None),
        Return 2 None, Poll (\<lambda>c. Return 3 None)]"
  let ?g = "\<lparr>ctx = \<lparr>Done = False\<rparr>, cancel = Some cancelCtx, wg = 3, errOnce = False, err = None,
             funcs = ?fs\<rparr>"
  let ?h = "\<lparr>wg_000 = 0, errOnce_000 = False, err_000 = None, funcs_000 = ?fs\<rparr>"
  have n: "New \<lparr>Done = False\<rparr> ?fs = Inr (?g, \<lparr>Done = False\<rparr>)"
    by (simp add: New_def WithCancel_def)
  have n0: "New_000 ?fs = Inr ?h" by (simp add: New_000_def)
  have ok: "\<forall>i<length ?fs. \<forall>v x. \<not> returns (?fs ! i) (v, Some x)"
    by (simp add: All_less_Suc)
  obtain vs e w where r: "Wait [Run 2, Run 0, Run 1, Run 0, Run 2] ?g = Returned (vs, e, w)"
    and gs: "goroutines w = [Exited 5 None, Exited 2 None, Exited 3 None]"
    by (simp add: Wait_def start_def returned_def wg_Done_def errOnce_Do_def cancelCtx_def)
  obtain vs0 e0 w0 where
    r0: "Wait_000 \<lparr>Done = False\<rparr> [Run 1, Run 2, Run 0, Run 2, Run 0] ?h = Returned (vs0, e0, w0)"
    and gs0: "goroutines_000 w0 = [Exited 5 None, Exited 2 None, Exited 3 None]"
    by (simp add: Wait_000_def start_000_eq returned_000_def wg_Done_000_def Let_def)
  note t = C2_all_tasks_succeed [OF n n0, of "[Run 2, Run 0, Run 1, Run 0, Run 2]" vs e w "[]"
      "\<lparr>Done = False\<rparr>" "[Run 1, Run 2, Run 0, Run 2, Run 0]" vs0 e0 w0]
  have l: "length vs = 3" using t [THEN conjunct2, THEN conjunct1, THEN mp, OF r] by simp
  have "e = None \<and>
      (\<forall>i<length ?fs. goroutines w ! i = Exited (vs ! i) None \<and> returns (?fs ! i) (vs ! i, None))"
    using t [THEN conjunct2, THEN conjunct2, THEN conjunct1] r ok by (elim impE) (intro conjI)
  then have a: "e = None" "vs ! 0 = 5 \<and> vs ! Suc 0 = 2 \<and> vs ! Suc (Suc 0) = 3"
    using gs by (simp_all add: All_less_Suc)
  have v: "vs = [5, 2, 3]"
    using a(2) l by (simp add: list_eq_iff_nth_eq All_less_Suc numeral_3_eq_3)
  have l0: "length vs0 = 3"
    using t [THEN conjunct2, THEN conjunct2, THEN conjunct2, THEN conjunct2, THEN conjunct2,
        THEN conjunct1, THEN mp, OF r0] by simp
  have "e0 = None \<and>
      (\<forall>i<length ?fs. goroutines_000 w0 ! i = Exited (vs0 ! i) None \<and>
         returns (?fs ! i) (vs0 ! i, None))"
    using t [THEN conjunct2, THEN conjunct2, THEN conjunct2, THEN conjunct2, THEN conjunct2,
        THEN conjunct2, THEN conjunct1] r0 ok by (elim impE) (intro conjI)
  then have a0: "e0 = None" "vs0 ! 0 = 5 \<and> vs0 ! Suc 0 = 2 \<and> vs0 ! Suc (Suc 0) = 3"
    using gs0 by (simp_all add: All_less_Suc)
  have v0: "vs0 = [5, 2, 3]"
    using a0(2) l0 by (simp add: list_eq_iff_nth_eq All_less_Suc numeral_3_eq_3)
  show ?thesis using n n0 r r0 gs gs0 a(1) a0(1) v v0 by blast
qed

text \<open>
  C3. For every dynamic group on which \<open>Go\<close> has been called exactly \<open>K\<close> times before
  \<open>Wait\<close> is called, \<open>Wait\<close> returns a values slice of exactly \<open>K\<close> elements, with
  exactly one element contributed per submitted task, including tasks that returned a
  non-nil error. \<open>K\<close> is within the range of the counter \<^verbatim>\<open>count uint\<close>: every counted
  task owns a goroutine that stays blocked in its send until \<open>Wait\<close> receives from it, so
  a run holds fewer than \<open>2 ^ 64\<close> of them. Every goroutine has then delivered and
  exited, and the slice is, as a multiset, what the goroutines delivered.
\<close>

theorem C3_one_element_per_task:
  assumes "length ps < 2 ^ 64"
  shows
    "(\<exists>evs r. Wait_dyn evs (submit ps (fresh_dyn parent)) = Returned r) \<and>
     (Wait_dyn evs (submit ps (fresh_dyn parent)) = Returned (vs, e, s') \<longrightarrow>
        length vs = length ps \<and> length (goroutines_dyn s') = length ps \<and>
        (\<forall>j<length ps. \<exists>v e'. goroutines_dyn s' ! j = Exited v e' \<and>
                                returns (fst (ps ! j)) (v, e')) \<and>
        mset vs = mset (map value_of (goroutines_dyn s')))"
proof -
  have "\<exists>evs r. Wait_dyn evs (submit ps (fresh_dyn parent)) = Returned r"
    by (rule Wait_dyn_returns)
  moreover have "Wait_dyn evs (submit ps (fresh_dyn parent)) = Returned (vs, e, s') \<longrightarrow>
        length vs = length ps \<and> length (goroutines_dyn s') = length ps \<and>
        (\<forall>j<length ps. \<exists>v e'. goroutines_dyn s' ! j = Exited v e' \<and>
                                returns (fst (ps ! j)) (v, e')) \<and>
        mset vs = mset (map value_of (goroutines_dyn s'))"
  proof (intro impI)
    assume r: "Wait_dyn evs (submit ps (fresh_dyn parent)) = Returned (vs, e, s')"
    show "length vs = length ps \<and> length (goroutines_dyn s') = length ps \<and>
        (\<forall>j<length ps. \<exists>v e'. goroutines_dyn s' ! j = Exited v e' \<and>
                                returns (fst (ps ! j)) (v, e')) \<and>
        mset vs = mset (map value_of (goroutines_dyn s'))"
      using Wait_dyn_all [OF assms r] Wait_dyn_post(2) [OF r] by (intro conjI)
  qed
  ultimately show ?thesis by (intro conjI)
qed

theorem C3_witness:
  "\<exists>vs e s'.
     length [(Return (7::nat) (Some ''err1''), [Run 0]), (Return 8 None, [])] < 2 ^ 64 \<and>
     Wait_dyn [Sched (Run 1), Recv 1, Recv 0]
       (submit [(Return (7::nat) (Some ''err1''), [Run 0]), (Return 8 None, [])]
          (fresh_dyn \<lparr>Done = False\<rparr>)) = Returned (vs, e, s') \<and>
     length vs = 2 \<and> mset vs = {#7, 8#}"
proof -
  let ?ps = "[(Return (7::nat) (Some ''err1''), [Run 0]), (Return 8 None, [])]"
  let ?evs = "[Sched (Run 1), Recv 1, Recv 0]"
  have b: "length ?ps < 2 ^ 64" by simp
  obtain vs e s' where r: "Wait_dyn ?evs (submit ?ps (fresh_dyn \<lparr>Done = False\<rparr>))
      = Returned (vs, e, s')"
    and gs: "goroutines_dyn s' = [Exited 7 (Some ''err1''), Exited 8 None]"
    by (simp add: Wait_dyn_def fresh_dyn_def NewDynamic_def WithCancel_def Go_def recv_def
        errOnce_Do_dyn_def cancelCtx_def)
  note t = C3_one_element_per_task [OF b, of "\<lparr>Done = False\<rparr>" ?evs vs e s']
  have "length vs = length ?ps \<and> mset vs = mset (map value_of (goroutines_dyn s'))"
    using t [THEN conjunct2] r by simp
  then have "length vs = 2 \<and> mset vs = {#7, 8#}" using gs by simp
  then show ?thesis using b r by blast
qed

text \<open>
  C4. For every fixed-group run in which some tasks return a non-nil error, the values
  slice returned by \<open>Wait\<close> holds a meaningful value only at the indices of tasks that did
  not error; every index whose task returned a non-nil error holds the zero value of the
  result type, even when that task also returned a non-zero value alongside its error.
  This holds of \<^verbatim>\<open>src/grouper.go\<close> and fails of \<^verbatim>\<open>src/unnamed/part_000\<close>, whose goroutine
  stores the value whether or not there is an error: a single task returning \<open>(6, ugh)\<close>
  leaves \<open>6\<close> at index \<open>0\<close>.
\<close>

theorem C4_counterexample:
  "New_000 [Return (6::nat) (Some ''ugh'')] =
     Inr \<lparr>wg_000 = 0, errOnce_000 = False, err_000 = None,
          funcs_000 = [Return 6 (Some ''ugh'')]\<rparr> \<and>
   Wait_000 \<lparr>Done = False\<rparr> [Run 0]
     \<lparr>wg_000 = 0, errOnce_000 = False, err_000 = None,
      funcs_000 = [Return (6::nat) (Some ''ugh'')]\<rparr> =
     Returned ([6], Some ''ugh'',
       \<lparr>group_000 = \<lparr>wg_000 = 0, errOnce_000 = True, err_000 = Some ''ugh'',
                      funcs_000 = [Return 6 (Some ''ugh'')]\<rparr>,
        ctx_000 = \<lparr>Done = True\<rparr>, cancel_000 = cancelCtx, vals_000 = [6],
        goroutines_000 = [Exited 6 (Some ''ugh'')], panicked_000 = None\<rparr>) \<and>
   [6] ! 0 \<noteq> (0::nat)"
  by (simp add: New_000_def Wait_000_def start_000_eq returned_000_def wg_Done_000_def
      errOnce_Do_000_def cancelCtx_def Let_def)

text \<open>
  C4, as the code has it: in \<^verbatim>\<open>src/grouper.go\<close> the index of a task that returned an error
  holds the zero value and the index of a task that returned no error holds its value; in
  \<^verbatim>\<open>src/unnamed/part_000\<close> every index holds the value its task returned, with or without
  an error.
\<close>

theorem C4_values_at_failed_indices:
  assumes "New parent fs = Inr (g, c)" and "New_000 fs = Inr g0"
  shows
    "(\<exists>sched r. Wait sched g = Returned r) \<and>
     (Wait sched g = Returned (vs, e, w) \<longrightarrow>
        (\<forall>i<length fs. \<exists>v e'. goroutines w ! i = Exited v e' \<and> returns (fs ! i) (v, e') \<and>
           vs ! i = (case e' of None \<Rightarrow> v | Some x \<Rightarrow> 0))) \<and>
     (\<exists>sched r. Wait_000 parent0 sched g0 = Returned r) \<and>
     (Wait_000 parent0 sched0 g0 = Returned (vs0, e0, w0) \<longrightarrow>
        (\<forall>i<length fs. \<exists>v e'. goroutines_000 w0 ! i = Exited v e' \<and> returns (fs ! i) (v, e') \<and>
           vs0 ! i = v))"
proof -
  have "\<exists>sched r. Wait sched g = Returned r"
    using Wait_returns [OF assms(1), of "[]"] by simp
  moreover have "\<exists>sched r. Wait_000 parent0 sched g0 = Returned r"
    using Wait_000_returns [of g0 parent0 "[]"] assms(2) by (simp add: New_000_Inr)
  moreover have "\<forall>i<length fs. \<exists>v e'. goroutines w ! i = Exited v e' \<and> returns (fs ! i) (v, e') \<and>
           vs ! i = (case e' of None \<Rightarrow> v | Some x \<Rightarrow> 0)"
    if "Wait sched g = Returned (vs, e, w)"
    by (rule Wait_post(3) [OF assms(1) that])
  moreover have "\<forall>i<length fs. \<exists>v e'. goroutines_000 w0 ! i = Exited v e' \<and>
      returns (fs ! i) (v, e') \<and> vs0 ! i = v"
    if "Wait_000 parent0 sched0 g0 = Returned (vs0, e0, w0)"
    by (rule Wait_000_post(3) [OF assms(2) that])
  ultimately show ?thesis by blast
qed

theorem C4_witness:
  "\<exists>g c g0 w w0.
     New \<lparr>Done = False\<rparr> [Return (6::nat) (Some ''ugh''), Return 2 None] = Inr (g, c) \<and>
     New_000 [Return (6::nat) (Some ''ugh''), Return 2 None] = Inr g0 \<and>
     Wait [Run 1, Run 0] g = Returned ([0, 2], Some ''ugh'', w) \<and>
     goroutines w = [Exited 6 (Some ''ugh''), Exited 2 None] \<and>
     Wait_000 \<lparr>Done = False\<rparr> [Run 1, Run 0] g0 = Returned ([6, 2], Some ''ugh'', w0) \<and>
     goroutines_000 w0 = [Exited 6 (Some ''ugh''), Exited 2 None]"
proof -
  let ?fs = "[Return (6::nat) (Some ''ugh''), Return 2 None]"
  let ?g = "\<lparr>ctx = \<lparr>Done = False\<rparr>, cancel = Some cancelCtx, wg = 2, errOnce = False,
             err = None, funcs = ?fs\<rparr>"
  let ?h = "\<lparr>wg_000 = 0, errOnce_000 = False, err_000 = None, funcs_000 = ?fs\<rparr>"
  have n: "New \<lparr>Done = False\<rparr> ?fs = Inr (?g, \<lparr>Done = False\<rparr>)"
    by (simp add: New_def WithCancel_def)
  have n0: "New_000 ?fs = Inr ?h" by (simp add: New_000_def)
  obtain vs w where r: "Wait [Run 1, Run 0] ?g = Returned (vs, Some ''ugh'', w)"
    and gs: "goroutines w = [Exited 6 (Some ''ugh''), Exited 2 None]"
    by (simp add: Wait_def start_def returned_def wg_Done_def errOnce_Do_def cancelCtx_def)
  obtain vs0 w0 where
    r0: "Wait_000 \<lparr>Done = False\<rparr> [Run 1, Run 0] ?h = Returned (vs0, Some ''ugh'', w0)"
    and gs0: "goroutines_000 w0 = [Exited 6 (Some ''ugh''), Exited 2 None]"
    by (simp add: Wait_000_def start_000_eq returned_000_def wg_Done_000_def errOnce_Do_000_def
        cancelCtx_def Let_def)
  note t = C4_values_at_failed_indices [OF n n0, of "[Run 1, Run 0]" vs "Some ''ugh''" w
      "\<lparr>Done = False\<rparr>" "[Run 1, Run 0]" vs0 "Some ''ugh''" w0]
  have l: "length vs = 2" using Wait_post(1) [OF n r] by simp
  have l0: "length vs0 = 2" using Wait_000_post(1) [OF n0 r0] by simp
  have "vs ! 0 = 0 \<and> vs ! 1 = 2" using t r gs by (simp add: All_less_Suc)
  then have "vs = [0, 2]" using l by (simp add: list_eq_iff_nth_eq All_less_Suc numeral_2_eq_2)
  moreover have "vs0 ! 0 = 6 \<and> vs0 ! 1 = 2" using t r0 gs0 by (simp add: All_less_Suc)
  then have "vs0 = [6, 2]" using l0 by (simp add: list_eq_iff_nth_eq All_less_Suc numeral_2_eq_2)
  ultimately show ?thesis using n n0 r r0 gs gs0 by blast
qed

text \<open>
  C5. For every dynamic-group task that returns a non-nil error, the value deposited into
  the hand-off channel for that task (and hence the corresponding element of the slice
  \<open>Wait\<close> returns) is the zero value of the result type, regardless of what value the task
  returned alongside its error. The code sends \<^verbatim>\<open>v\<close>, the value the task returned: a
  task returning \<open>(6, ugh)\<close> puts \<open>6\<close> into the slice.
\<close>

theorem C5_counterexample:
  "Wait_dyn [Sched (Run 0), Recv 0]
     (submit [(Return (6::nat) (Some ''ugh''), [])] (fresh_dyn \<lparr>Done = False\<rparr>)) =
   Returned ([6], Some ''ugh'',
     \<lparr>group_dyn = \<lparr>ctx_dyn = \<lparr>Done = True\<rparr>, cancel_dyn = Some cancelCtx, errOnce_dyn = True,
                    err_dyn = Some ''ugh'', count_dyn = 0, valueChan = Unbuffered\<rparr>,
      goroutines_dyn = [Exited 6 (Some ''ugh'')]\<rparr>) \<and>
   [6] \<noteq> [0::nat]"
  by (simp add: Wait_dyn_def fresh_dyn_def NewDynamic_def WithCancel_def Go_def recv_def
      errOnce_Do_dyn_def cancelCtx_def)

text \<open>
  C5, as the code has it: the value a goroutine offers on the channel, and the value the
  receive in \<open>Wait\<close> gets from it, is the value its task returned, with or without an
  error; after \<open>Wait\<close> has returned, the value each task returned is an element of the
  slice.
\<close>

theorem C5_deposit_is_the_returned_value:
  assumes "length ps < 2 ^ 64"
  shows
    "(j < length (goroutines_dyn s) \<and> goroutines_dyn s ! j = Running (Return v e) \<longrightarrow>
        goroutines_dyn (step_dyn (Run j) s) ! j = Sending v e) \<and>
     (j < length (goroutines_dyn s) \<and> goroutines_dyn s ! j = Sending v e \<longrightarrow>
        recv j s = Some (v, s\<lparr>goroutines_dyn := (goroutines_dyn s)[j := Exited v e]\<rparr>)) \<and>
     (\<exists>evs r. Wait_dyn evs (submit ps (fresh_dyn parent)) = Returned r) \<and>
     (Wait_dyn evs (submit ps (fresh_dyn parent)) = Returned (vs, e', s') \<longrightarrow>
        (\<forall>k<length ps. \<exists>u x. goroutines_dyn s' ! k = Exited u x \<and>
                                returns (fst (ps ! k)) (u, x) \<and> u \<in> set vs))"
proof -
  have a: "j < length (goroutines_dyn s) \<and> goroutines_dyn s ! j = Running (Return v e) \<longrightarrow>
        goroutines_dyn (step_dyn (Run j) s) ! j = Sending v e"
    by (cases e) simp_all
  have b: "j < length (goroutines_dyn s) \<and> goroutines_dyn s ! j = Sending v e \<longrightarrow>
        recv j s = Some (v, s\<lparr>goroutines_dyn := (goroutines_dyn s)[j := Exited v e]\<rparr>)"
    by (simp add: recv_def)
  have c: "\<exists>evs r. Wait_dyn evs (submit ps (fresh_dyn parent)) = Returned r"
    by (rule Wait_dyn_returns)
  have d: "Wait_dyn evs (submit ps (fresh_dyn parent)) = Returned (vs, e', s') \<longrightarrow>
      (\<forall>k<length ps. \<exists>u x. goroutines_dyn s' ! k = Exited u x \<and>
                                returns (fst (ps ! k)) (u, x) \<and> u \<in> set vs)"
  proof (intro allI impI)
    assume r: "Wait_dyn evs (submit ps (fresh_dyn parent)) = Returned (vs, e', s')"
    fix k assume k: "k < length ps"
    note p = Wait_dyn_all [OF assms r]
    obtain u x where ux: "goroutines_dyn s' ! k = Exited u x" "returns (fst (ps ! k)) (u, x)"
      using p(3) k by blast
    have "k < length (goroutines_dyn s')" using Wait_dyn_post(2) [OF r] k by simp
    then have "value_of (goroutines_dyn s' ! k) \<in> set (map value_of (goroutines_dyn s'))"
      by simp
    then have "u \<in> set (map value_of (goroutines_dyn s'))" using ux(1) by simp
    moreover have "set vs = set (map value_of (goroutines_dyn s'))"
      using p(2) by (rule mset_eq_setD)
    ultimately show "\<exists>u x. goroutines_dyn s' ! k = Exited u x \<and>
        returns (fst (ps ! k)) (u, x) \<and> u \<in> set vs"
      using ux by blast
  qed
  show ?thesis by (intro conjI a b c d)
qed

theorem C5_witness:
  "\<exists>vs e' s'.
     length [(Return (6::nat) (Some ''ugh''), [] :: event list), (Return 0 (Some ''zero''), [])]
       < 2 ^ 64 \<and>
     Wait_dyn [Sched (Run 0), Sched (Run 1), Recv 1, Recv 0]
       (submit [(Return (6::nat) (Some ''ugh''), []), (Return 0 (Some ''zero''), [])]
          (fresh_dyn \<lparr>Done = False\<rparr>)) = Returned (vs, e', s') \<and>
     goroutines_dyn s' = [Exited 6 (Some ''ugh''), Exited 0 (Some ''zero'')] \<and>
     6 \<in> set vs \<and> 0 \<in> set vs"
proof -
  let ?ps = "[(Return (6::nat) (Some ''ugh''), [] :: event list), (Return 0 (Some ''zero''), [])]"
  let ?evs = "[Sched (Run 0), Sched (Run 1), Recv 1, Recv 0]"
  have b: "length ?ps < 2 ^ 64" by simp
  obtain vs e' s' where r: "Wait_dyn ?evs (submit ?ps (fresh_dyn \<lparr>Done = False\<rparr>))
      = Returned (vs, e', s')"
    and gs: "goroutines_dyn s' = [Exited 6 (Some ''ugh''), Exited 0 (Some ''zero'')]"
    by (simp add: Wait_dyn_def fresh_dyn_def NewDynamic_def WithCancel_def Go_def recv_def
        errOnce_Do_dyn_def cancelCtx_def)
  note t = C5_deposit_is_the_returned_value [OF b, of 0 "fresh_dyn \<lparr>Done = False\<rparr>" 0 None
      "\<lparr>Done = False\<rparr>" ?evs vs e' s']
  have "\<forall>k<length ?ps. \<exists>u x. goroutines_dyn s' ! k = Exited u x \<and>
      returns (fst (?ps ! k)) (u, x) \<and> u \<in> set vs"
    using t [THEN conjunct2, THEN conjunct2, THEN conjunct2, THEN mp, OF r] .
  then have "6 \<in> set vs \<and> 0 \<in> set vs" using gs by (simp add: All_less_Suc)
  then show ?thesis using b r gs by blast
qed

text \<open>
  C6. For every group (fixed or dynamic), after \<open>Wait\<close> returns, the derived cancellable
  context handed to the tasks reports itself as done, both when some task failed and when
  no task failed. The context is the one the tasks poll: \<open>ctx\<close> of the group in
  \<^verbatim>\<open>grouper.go\<close>, the local \<open>ctx_000\<close> in \<^verbatim>\<open>part_000\<close>, \<open>ctx_dyn\<close> of the dynamic group.
  In each of the three, some schedule lets \<open>Wait\<close> return, and whenever it has returned
  the context is done, whatever the tasks returned.
\<close>

theorem C6_context_done_after_Wait:
  assumes "New parent fs = Inr (g, c)"
  shows
    "(\<exists>sched r. Wait sched g = Returned r) \<and>
     (Wait sched g = Returned (vs, e, w) \<longrightarrow> Done (ctx (group w))) \<and>
     (wg_000 g0 = 0 \<longrightarrow> (\<exists>sched r. Wait_000 parent0 sched g0 = Returned r)) \<and>
     (Wait_000 parent0 sched0 g0 = Returned (vs0, e0, w0) \<longrightarrow> Done (ctx_000 w0)) \<and>
     (\<exists>evs r. Wait_dyn evs (submit ps (fresh_dyn parentd)) = Returned r) \<and>
     (Wait_dyn evs (submit ps (fresh_dyn parentd)) = Returned (vsd, ed, sd) \<longrightarrow>
        Done (ctx_dyn (group_dyn sd)))"
proof -
  have "\<exists>sched r. Wait sched g = Returned r"
    using Wait_returns [OF assms, of "[]"] by simp
  moreover have "Done (ctx (group w))" if "Wait sched g = Returned (vs, e, w)"
    by (rule Wait_post(5) [OF assms that])
  moreover have "\<exists>sched r. Wait_000 parent0 sched g0 = Returned r" if "wg_000 g0 = 0"
    using Wait_000_returns [OF that, of parent0 "[]"] by simp
  moreover have "Done (ctx_000 w0)" if "Wait_000 parent0 sched0 g0 = Returned (vs0, e0, w0)"
    by (rule Wait_000_Done [OF that])
  moreover have "\<exists>evs r. Wait_dyn evs (submit ps (fresh_dyn parentd)) = Returned r"
    by (rule Wait_dyn_returns)
  moreover have "Done (ctx_dyn (group_dyn sd))"
    if "Wait_dyn evs (submit ps (fresh_dyn parentd)) = Returned (vsd, ed, sd)"
    by (rule Wait_dyn_post(7) [OF that])
  ultimately show ?thesis by blast
qed

theorem C6_witness:
  "\<exists>g c w w0 sd g' c' w' w0' sd'.
     New \<lparr>Done = False\<rparr> [Return (0::nat) (Some ''doomed''), Return 0 None] = Inr (g, c) \<and>
     Wait [Run 0, Run 1] g = Returned ([0, 0], Some ''doomed'', w) \<and> Done (ctx (group w)) \<and>
     Wait_000 \<lparr>Done = False\<rparr> [Run 0, Run 1]
       \<lparr>wg_000 = 0, errOnce_000 = False, err_000 = None,
        funcs_000 = [Return (0::nat) (Some ''doomed''), Return 0 None]\<rparr>
       = Returned ([0, 0], Some ''doomed'', w0) \<and> Done (ctx_000 w0) \<and>
     Wait_dyn [Sched (Run 0), Sched (Run 1), Recv 0, Recv 1]
       (submit [(Return (0::nat) (Some ''doomed''), []), (Return 0 None, [])] (fresh_dyn \<lparr>Done = False\<rparr>))
       = Returned ([0, 0], Some ''doomed'', sd) \<and> Done (ctx_dyn (group_dyn sd)) \<and>
     New \<lparr>Done = False\<rparr> [Return (0::nat) (None :: string option)] = Inr (g', c') \<and>
     Wait [Run 0] g' = Returned ([0], None, w') \<and> Done (ctx (group w')) \<and>
     Wait_000 \<lparr>Done = False\<rparr> [Run 0]
       \<lparr>wg_000 = 0, errOnce_000 = False, err_000 = None,
        funcs_000 = [Return (0::nat) (None :: string option)]\<rparr>
       = Returned ([0], None, w0') \<and> Done (ctx_000 w0') \<and>
     Wait_dyn [Sched (Run 0), Recv 0]
       (submit [(Return (0::nat) (None :: string option), [])] (fresh_dyn \<lparr>Done = False\<rparr>))
       = Returned ([0], None, sd') \<and> Done (ctx_dyn (group_dyn sd'))"
proof -
  let ?fs = "[Return (0::nat) (Some ''doomed''), Return 0 None]"
  let ?fs' = "[Return (0::nat) (None :: string option)]"
  let ?g = "\<lparr>ctx = \<lparr>Done = False\<rparr>, cancel = Some cancelCtx, wg = 2, errOnce = False,
             err = None, funcs = ?fs\<rparr>"
  let ?g' = "\<lparr>ctx = \<lparr>Done = False\<rparr>, cancel = Some cancelCtx, wg = 1, errOnce = False,
             err = None, funcs = ?fs'\<rparr>"
  let ?h = "\<lparr>wg_000 = 0, errOnce_000 = False, err_000 = None, funcs_000 = ?fs\<rparr>"
  let ?h' = "\<lparr>wg_000 = 0, errOnce_000 = False, err_000 = None, funcs_000 = ?fs'\<rparr>"
  let ?ps = "[(Return (0::nat) (Some ''doomed''), []), (Return 0 None, [])]"
  let ?ps' = "[(Return (0::nat) (None :: string option), [])]"
  let ?evs = "[Sched (Run 0), Sched (Run 1), Recv 0, Recv 1]"
  have n: "New \<lparr>Done = False\<rparr> ?fs = Inr (?g, \<lparr>Done = False\<rparr>)"
    by (simp add: New_def WithCancel_def)
  have n': "New \<lparr>Done = False\<rparr> ?fs' = Inr (?g', \<lparr>Done = False\<rparr>)"
    by (simp add: New_def WithCancel_def)
  obtain w where r: "Wait [Run 0, Run 1] ?g = Returned ([0, 0], Some ''doomed'', w)"
    by (simp add: Wait_def start_def returned_def wg_Done_def errOnce_Do_def cancelCtx_def)
  obtain w0 where r0: "Wait_000 \<lparr>Done = False\<rparr> [Run 0, Run 1] ?h
      = Returned ([0, 0], Some ''doomed'', w0)"
    by (simp add: Wait_000_def start_000_eq returned_000_def wg_Done_000_def errOnce_Do_000_def
        cancelCtx_def Let_def)
  obtain sd where rd: "Wait_dyn ?evs (submit ?ps (fresh_dyn \<lparr>Done = False\<rparr>))
      = Returned ([0, 0], Some ''doomed'', sd)"
    by (simp add: Wait_dyn_def fresh_dyn_def NewDynamic_def WithCancel_def Go_def recv_def
        errOnce_Do_dyn_def cancelCtx_def)
       (simp_all add: numeral_2_eq_2)
  obtain w' where r': "Wait [Run 0] ?g' = Returned ([0], None, w')"
    by (simp add: Wait_def start_def returned_def wg_Done_def errOnce_Do_def cancelCtx_def)
  obtain w0' where r0': "Wait_000 \<lparr>Done = False\<rparr> [Run 0] ?h' = Returned ([0], None, w0')"
    by (simp add: Wait_000_def start_000_eq returned_000_def wg_Done_000_def errOnce_Do_000_def
        cancelCtx_def Let_def)
  obtain sd' where rd': "Wait_dyn [Sched (Run 0), Recv 0] (submit ?ps' (fresh_dyn \<lparr>Done = False\<rparr>))
      = Returned ([0], None, sd')"
    by (simp add: Wait_dyn_def fresh_dyn_def NewDynamic_def WithCancel_def Go_def recv_def
        errOnce_Do_dyn_def cancelCtx_def)
  note t = C6_context_done_after_Wait [OF n, of "[Run 0, Run 1]" "[0, 0]" "Some ''doomed''" w
      ?h "\<lparr>Done = False\<rparr>" "[Run 0, Run 1]" "[0, 0]" "Some ''doomed''" w0
      ?ps "\<lparr>Done = False\<rparr>" ?evs "[0, 0]" "Some ''doomed''" sd]
  note t' = C6_context_done_after_Wait [OF n', of "[Run 0]" "[0]" None w'
      ?h' "\<lparr>Done = False\<rparr>" "[Run 0]" "[0]" None w0'
      ?ps' "\<lparr>Done = False\<rparr>" "[Sched (Run 0), Recv 0]" "[0]" None sd']
  have "Done (ctx (group w))" "Done (ctx_000 w0)" "Done (ctx_dyn (group_dyn sd))"
    using t r r0 rd by simp_all
  moreover have "Done (ctx (group w'))" "Done (ctx_000 w0')" "Done (ctx_dyn (group_dyn sd'))"
    using t' r' r0' rd' by simp_all
  ultimately show ?thesis using n n' r r0 rd r' r0' rd' by blast
qed



text \<open>
  C8. For a dynamic group on which \<open>Go\<close> was never called, \<open>Wait\<close> returns immediately
  (without blocking on the channel) with an empty values slice and a nil error: it has
  returned under every schedule, the empty one included, and nothing is received.
\<close>

theorem C8_Wait_without_Go:
  "Wait_dyn evs (fresh_dyn parent) =
     Returned ([], None,
       \<lparr>group_dyn = \<lparr>ctx_dyn = \<lparr>Done = True\<rparr>, cancel_dyn = Some cancelCtx, errOnce_dyn = False,
                      err_dyn = None, count_dyn = 0, valueChan = Unbuffered\<rparr>,
        goroutines_dyn = []\<rparr>)"
  by (cases evs)
     (simp_all add: Wait_dyn_def fresh_dyn_def NewDynamic_def WithCancel_def cancelCtx_def)

text \<open>
  C9. For every list of task functions and every assignment of (value, error) outcomes to
  those tasks, the fixed-group implementation in \<^verbatim>\<open>src/grouper.go\<close> and the one in
  \<^verbatim>\<open>src/unnamed/part_000\<close> return the same values slice and the same error from \<open>Wait\<close>.
  The slices differ as soon as a failing task returns a non-zero value: for a single task
  returning \<open>(6, ugh)\<close> the first returns \<open>[0]\<close> and the second \<open>[6]\<close>.
\<close>

theorem C9_counterexample:
  "New \<lparr>Done = False\<rparr> [Return (6::nat) (Some ''ugh'')] =
     Inr (\<lparr>ctx = \<lparr>Done = False\<rparr>, cancel = Some cancelCtx, wg = 1, errOnce = False,
           err = None, funcs = [Return 6 (Some ''ugh'')]\<rparr>, \<lparr>Done = False\<rparr>) \<and>
   Wait [Run 0]
     \<lparr>ctx = \<lparr>Done = False\<rparr>, cancel = Some cancelCtx, wg = 1, errOnce = False,
      err = None, funcs = [Return (6::nat) (Some ''ugh'')]\<rparr> =
     Returned ([0], Some ''ugh'',
       \<lparr>group = \<lparr>ctx = \<lparr>Done = True\<rparr>, cancel = Some cancelCtx, wg = 0, errOnce = True,
                  err = Some ''ugh'', funcs = [Return 6 (Some ''ugh'')]\<rparr>,
        vals = [0], goroutines = [Exited 6 (Some ''ugh'')], panicked = None\<rparr>) \<and>
   New_000 [Return (6::nat) (Some ''ugh'')] =
     Inr \<lparr>wg_000 = 0, errOnce_000 = False, err_000 = None,
          funcs_000 = [Return 6 (Some ''ugh'')]\<rparr> \<and>
   Wait_000 \<lparr>Done = False\<rparr> [Run 0]
     \<lparr>wg_000 = 0, errOnce_000 = False, err_000 = None,
      funcs_000 = [Return (6::nat) (Some ''ugh'')]\<rparr> =
     Returned ([6], Some ''ugh'',
       \<lparr>group_000 = \<lparr>wg_000 = 0, errOnce_000 = True, err_000 = Some ''ugh'',
                      funcs_000 = [Return 6 (Some ''ugh'')]\<rparr>,
        ctx_000 = \<lparr>Done = True\<rparr>, cancel_000 = cancelCtx, vals_000 = [6],
        goroutines_000 = [Exited 6 (Some ''ugh'')], panicked_000 = None\<rparr>) \<and>
   [0] \<noteq> [6::nat]"
  by (simp add: New_def New_000_def WithCancel_def Wait_def start_def returned_def wg_Done_def
      errOnce_Do_def Wait_000_def start_000_eq returned_000_def wg_Done_000_def
      errOnce_Do_000_def cancelCtx_def Let_def)

text \<open>
  C9, as the code has it: given the same parent context, the same tasks and the same
  schedule, the two implementations return together, with the same error and the same
  results of the tasks; the slices agree at every index whose task returned no error; at
  the index of a task that returned an error the first holds zero and the second the
  value the task returned; so the slices are equal when every failing task returned zero.
\<close>

theorem C9_same_error_values_differ_at_failures:
  assumes "New parent fs = Inr (g, c)" and "New_000 fs = Inr g0"
  shows
    "((\<exists>r. Wait sched g = Returned r) \<longleftrightarrow> (\<exists>r. Wait_000 parent sched g0 = Returned r)) \<and>
     (Wait sched g = Returned (vs, e, w) \<and> Wait_000 parent sched g0 = Returned (vs0, e0, w0) \<longrightarrow>
        e0 = e \<and> goroutines_000 w0 = goroutines w \<and> length vs0 = length vs \<and>
        (\<forall>i<length fs. \<forall>v. goroutines w ! i = Exited v None \<longrightarrow> vs ! i = v \<and> vs0 ! i = v) \<and>
        (\<forall>i<length fs. \<forall>v x. goroutines w ! i = Exited v (Some x) \<longrightarrow> vs ! i = 0 \<and> vs0 ! i = v) \<and>
        ((\<forall>i<length fs. \<forall>v x. goroutines w ! i = Exited v (Some x) \<longrightarrow> v = 0) \<longrightarrow> vs0 = vs))"
proof -
  have a: "(\<exists>r. Wait sched g = Returned r) \<longleftrightarrow> (\<exists>r. Wait_000 parent sched g0 = Returned r)"
    using sim_Wait(1) [OF assms, of sched] by simp
  have b: "Wait sched g = Returned (vs, e, w) \<and> Wait_000 parent sched g0 = Returned (vs0, e0, w0) \<longrightarrow>
        e0 = e \<and> goroutines_000 w0 = goroutines w \<and> length vs0 = length vs \<and>
        (\<forall>i<length fs. \<forall>v. goroutines w ! i = Exited v None \<longrightarrow> vs ! i = v \<and> vs0 ! i = v) \<and>
        (\<forall>i<length fs. \<forall>v x. goroutines w ! i = Exited v (Some x) \<longrightarrow> vs ! i = 0 \<and> vs0 ! i = v) \<and>
        ((\<forall>i<length fs. \<forall>v x. goroutines w ! i = Exited v (Some x) \<longrightarrow> v = 0) \<longrightarrow> vs0 = vs)"
  proof (intro impI, elim conjE)
    assume r: "Wait sched g = Returned (vs, e, w)"
      and r0: "Wait_000 parent sched g0 = Returned (vs0, e0, w0)"
    note p = Wait_post [OF assms(1) r]
    note p0 = Wait_000_post [OF assms(2) r0]
    have s: "e0 = e" "goroutines_000 w0 = goroutines w"
      using sim_Wait(2) [OF assms r r0] by simp_all
    have len: "length vs0 = length vs" using p(1) p0(1) by simp
    have ok: "vs ! i = v \<and> vs0 ! i = v"
      if "i < length fs" "goroutines w ! i = Exited v None" for i v
      using p(3) p0(3) s(2) that by fastforce
    have bad: "vs ! i = 0 \<and> vs0 ! i = v"
      if "i < length fs" "goroutines w ! i = Exited v (Some x)" for i v x
      using p(3) p0(3) s(2) that by fastforce
    have eq: "vs0 = vs"
      if z: "\<forall>i<length fs. \<forall>v x. goroutines w ! i = Exited v (Some x) \<longrightarrow> v = 0"
    proof -
      have "vs0 ! i = vs ! i" if i: "i < length fs" for i
      proof -
        obtain v e' where ex: "goroutines w ! i = Exited v e'" using p(3) i by blast
        show ?thesis
        proof (cases e')
          case None
          then show ?thesis using ok [OF i] ex by simp
        next
          case (Some x)
          then have "v = 0" using z i ex by blast
          then show ?thesis using bad [OF i] ex Some by simp
        qed
      qed
      then show ?thesis using len p(1) by (simp add: list_eq_iff_nth_eq)
    qed
    show "e0 = e \<and> goroutines_000 w0 = goroutines w \<and> length vs0 = length vs \<and>
        (\<forall>i<length fs. \<forall>v. goroutines w ! i = Exited v None \<longrightarrow> vs ! i = v \<and> vs0 ! i = v) \<and>
        (\<forall>i<length fs. \<forall>v x. goroutines w ! i = Exited v (Some x) \<longrightarrow> vs ! i = 0 \<and> vs0 ! i = v) \<and>
        ((\<forall>i<length fs. \<forall>v x. goroutines w ! i = Exited v (Some x) \<longrightarrow> v = 0) \<longrightarrow> vs0 = vs)"
    proof (intro conjI)
      show "e0 = e" by (rule s(1))
      show "goroutines_000 w0 = goroutines w" by (rule s(2))
      show "length vs0 = length vs" by (rule len)
      show "\<forall>i<length fs. \<forall>v. goroutines w ! i = Exited v None \<longrightarrow> vs ! i = v \<and> vs0 ! i = v"
        using ok by blast
      show "\<forall>i<length fs. \<forall>v x. goroutines w ! i = Exited v (Some x) \<longrightarrow>
          vs ! i = 0 \<and> vs0 ! i = v"
        using bad by blast
      show "(\<forall>i<length fs. \<forall>v x. goroutines w ! i = Exited v (Some x) \<longrightarrow> v = 0) \<longrightarrow> vs0 = vs"
        using eq by blast
    qed
  qed
  show ?thesis by (intro conjI a b)
qed

theorem C9_witness:
  "\<exists>g c g0 vs e w vs0 e0 w0.
     New \<lparr>Done = False\<rparr> [Return (0::nat) (Some ''err1''), Return 4 None] = Inr (g, c) \<and>
     New_000 [Return (0::nat) (Some ''err1''), Return 4 None] = Inr g0 \<and>
     Wait [Run 1, Run 0] g = Returned (vs, e, w) \<and>
     Wait_000 \<lparr>Done = False\<rparr> [Run 1, Run 0] g0 = Returned (vs0, e0, w0) \<and>
     goroutines w = [Exited 0 (Some ''err1''), Exited 4 None] \<and>
     e0 = e \<and> vs0 = vs"
proof -
  let ?fs = "[Return (0::nat) (Some ''err1''), Return 4 None]"
  let ?g = "\<lparr>ctx = \<lparr>Done = False\<rparr>, cancel = Some cancelCtx, wg = 2, errOnce = False,
             err = None, funcs = ?fs\<rparr>"
  let ?h = "\<lparr>wg_000 = 0, errOnce_000 = False, err_000 = None, funcs_000 = ?fs\<rparr>"
  have n: "New \<lparr>Done = False\<rparr> ?fs = Inr (?g, \<lparr>Done = False\<rparr>)"
    by (simp add: New_def WithCancel_def)
  have n0: "New_000 ?fs = Inr ?h" by (simp add: New_000_def)
  obtain vs e w where r: "Wait [Run 1, Run 0] ?g = Returned (vs, e, w)"
    and gs: "goroutines w = [Exited 0 (Some ''err1''), Exited 4 None]"
    by (simp add: Wait_def start_def returned_def wg_Done_def errOnce_Do_def cancelCtx_def)
  obtain vs0 e0 w0 where
    r0: "Wait_000 \<lparr>Done = False\<rparr> [Run 1, Run 0] ?h = Returned (vs0, e0, w0)"
    by (simp add: Wait_000_def start_000_eq returned_000_def wg_Done_000_def errOnce_Do_000_def
        cancelCtx_def Let_def)
  note t = C9_same_error_values_differ_at_failures [OF n n0, of "[Run 1, Run 0]" vs e w vs0 e0 w0,
      THEN conjunct2, THEN mp, OF conjI [OF r r0]]
  have z: "\<forall>i<length ?fs. \<forall>v x. goroutines w ! i = Exited v (Some x) \<longrightarrow> v = 0"
    using gs by (simp add: All_less_Suc)
  have "e0 = e" using t by (elim conjE)
  moreover have "vs0 = vs"
    using t [THEN conjunct2, THEN conjunct2, THEN conjunct2, THEN conjunct2, THEN conjunct2,
        THEN mp, OF z] .
  ultimately show ?thesis using n n0 r r0 gs by blast
qed

text \<open>
  C10. For the fixed group in \<^verbatim>\<open>src/unnamed/part_000\<close>, once a call to \<open>Wait\<close> has returned a
  non-nil error, every subsequent call to \<open>Wait\<close> on the same group returns that same
  error: the error slot is written at most once over the group's whole lifetime, across
  repeated \<open>Wait\<close> calls. The group comes from \<open>New\<close> and has been through any number of
  calls of \<open>Wait\<close> before and after the one that returned the error; a later call can return,
  and when it does its error is the same; a step of a goroutine leaves the slot as it is
  once the guard has fired.
\<close>

theorem C10_Wait_keeps_the_first_error:
  assumes "New_000 fs = Inr g0"
    and "Waits_000 before g0 = Returned g1"
    and "Wait_000 parent sched g1 = Returned (vs, Some x, w)"
    and "Waits_000 between (group_000 w) = Returned g2"
  shows
    "errOnce_000 g2 \<and> err_000 g2 = Some x \<and>
     (\<exists>sched' r. Wait_000 parent' sched' g2 = Returned r) \<and>
     (Wait_000 parent' sched'' g2 = Returned (vs', e', w') \<longrightarrow>
        e' = Some x \<and> err_000 (group_000 w') = Some x) \<and>
     (errOnce_000 (group_000 f) \<longrightarrow>
        err_000 (group_000 (step_000 ev f)) = err_000 (group_000 f) \<and>
        errOnce_000 (group_000 (step_000 ev f)))"
proof -
  have i1: "idle_000 g1" by (rule Waits_000_idle [OF New_000_idle [OF assms(1)] assms(2)])
  have f: "errOnce_000 (group_000 w) \<and> err_000 (group_000 w) = Some x"
    by (rule Wait_000_error_fires [OF i1 assms(3)])
  have iw: "idle_000 (group_000 w)" by (rule Wait_000_idle [OF i1 assms(3)])
  have i2: "idle_000 g2" by (rule Waits_000_idle [OF iw assms(4)])
  have k: "errOnce_000 g2 \<and> err_000 g2 = err_000 (group_000 w)"
    using Waits_000_keeps [OF _ assms(4)] f by simp
  then have a: "errOnce_000 g2" and b: "err_000 g2 = Some x" using f by simp_all
  have c: "\<exists>sched' r. Wait_000 parent' sched' g2 = Returned r"
    using Wait_000_returns [of g2 parent' "[]"] i2 by (simp add: idle_000_def)
  have d: "Wait_000 parent' sched'' g2 = Returned (vs', e', w') \<longrightarrow>
        e' = Some x \<and> err_000 (group_000 w') = Some x"
  proof (intro impI)
    assume r: "Wait_000 parent' sched'' g2 = Returned (vs', e', w')"
    show "e' = Some x \<and> err_000 (group_000 w') = Some x"
      using Wait_000_keeps(1) [OF a r] Wait_000_keeps(3) [OF a r] b by simp
  qed
  have e: "errOnce_000 (group_000 f) \<longrightarrow>
        err_000 (group_000 (step_000 ev f)) = err_000 (group_000 f) \<and>
        errOnce_000 (group_000 (step_000 ev f))"
    using step_000_keeps_err [of f ev] by blast
  show ?thesis by (intro conjI a b c d e)
qed

theorem C10_witness:
  "\<exists>g0 vs w vs' e' w'.
     New_000 [Poll (\<lambda>c. if Done c then Return (0::nat) (Some ''cancelled'') else Return 7 None)]
       = Inr g0 \<and>
     Waits_000 [] g0 = Returned g0 \<and>
     Wait_000 \<lparr>Done = True\<rparr> [Run 0, Run 0] g0 = Returned (vs, Some ''cancelled'', w) \<and>
     Waits_000 [] (group_000 w) = Returned (group_000 w) \<and>
     Wait_000 \<lparr>Done = False\<rparr> [Run 0, Run 0] (group_000 w) = Returned (vs', e', w') \<and>
     goroutines_000 w' = [Exited 7 None] \<and> e' = Some ''cancelled''"
proof -
  let ?fs = "[Poll (\<lambda>c. if Done c then Return (0::nat) (Some ''cancelled'') else Return 7 None)]"
  let ?h = "\<lparr>wg_000 = 0, errOnce_000 = False, err_000 = None, funcs_000 = ?fs\<rparr>"
  let ?h' = "\<lparr>wg_000 = 0, errOnce_000 = True, err_000 = Some ''cancelled'', funcs_000 = ?fs\<rparr>"
  have n0: "New_000 ?fs = Inr ?h" by (simp add: New_000_def)
  have b: "Waits_000 [] ?h = Returned ?h" by simp
  obtain vs w where r: "Wait_000 \<lparr>Done = True\<rparr> [Run 0, Run 0] ?h
      = Returned (vs, Some ''cancelled'', w)" and gw: "group_000 w = ?h'"
    by (simp add: Wait_000_def start_000_eq returned_000_def wg_Done_000_def errOnce_Do_000_def
        cancelCtx_def Let_def)
  have m: "Waits_000 [] (group_000 w) = Returned (group_000 w)" by simp
  obtain vs' e' w' where r': "Wait_000 \<lparr>Done = False\<rparr> [Run 0, Run 0] (group_000 w)
      = Returned (vs', e', w')" and gs: "goroutines_000 w' = [Exited 7 None]"
    unfolding gw
    by (simp add: Wait_000_def start_000_eq returned_000_def wg_Done_000_def errOnce_Do_000_def
        cancelCtx_def Let_def)
  note t = C10_Wait_keeps_the_first_error [OF n0 b r m, of "\<lparr>Done = False\<rparr>" "[Run 0, Run 0]"
      vs' e' w']
  have "e' = Some ''cancelled''"
    using t [THEN conjunct2, THEN conjunct2, THEN conjunct2, THEN conjunct1, THEN mp, OF r']
    by (elim conjE)
  then show ?thesis using n0 b r m r' gs by blast
qed

end
